theory Spec2Isabelle
  imports Main
begin

section \<open>Points and intervals (point.go, interval.go)\<close>

text \<open>
  A Go \<^verbatim>\<open>Point\<close> is any value with a method \<^verbatim>\<open>Less\<close> that is a total or a strict weak
  ordering. A strict weak ordering is a linear order on the classes of incomparable
  points, so a point is modelled as a pair of a \<open>rank\<close> in a linear order, which is all
  that \<^verbatim>\<open>Less\<close> looks at, and a \<open>tag\<close> that \<^verbatim>\<open>Less\<close> ignores: two points with the same rank
  and different tags are incomparable without being identical. The nil interface value
  and the NaN panics of the floating-point adapters are not modelled.
\<close>

datatype ('k, 't) point = Point (rank: 'k) (tag: 't)

definition Less :: "('k::linorder, 't) point \<Rightarrow> ('k, 't) point \<Rightarrow> bool" where
  "Less x y \<longleftrightarrow> rank x < rank y"

definition equal_pt :: "('k::linorder, 't) point \<Rightarrow> ('k, 't) point \<Rightarrow> bool" where
  "equal_pt x y \<longleftrightarrow> \<not> (Less x y \<or> Less y x)"

definition lessOrEqual :: "('k::linorder, 't) point \<Rightarrow> ('k, 't) point \<Rightarrow> bool" where
  "lessOrEqual x y \<longleftrightarrow> \<not> Less y x"

record ('k, 't) Interval =
  Left :: "('k, 't) point"
  Right :: "('k, 't) point"

definition empty_iv :: "('k::linorder, 't) Interval \<Rightarrow> bool" where
  "empty_iv iv \<longleftrightarrow> lessOrEqual (Right iv) (Left iv)"

definition Less_iv :: "('k::linorder, 't) Interval \<Rightarrow> ('k, 't) Interval \<Rightarrow> bool" where
  "Less_iv iv than =
     (if Less (Left iv) (Left than) then True
      else if Less (Left than) (Left iv) then False
      else Less (Right iv) (Right than))"

definition Equal_iv :: "('k::linorder, 't) Interval \<Rightarrow> ('k, 't) Interval \<Rightarrow> bool" where
  "Equal_iv iv to \<longleftrightarrow> equal_pt (Left iv) (Left to) \<and> equal_pt (Right iv) (Right to)"

definition ContainsPoint :: "('k::linorder, 't) Interval \<Rightarrow> ('k, 't) point \<Rightarrow> bool" where
  "ContainsPoint iv x \<longleftrightarrow> Less x (Right iv) \<and> lessOrEqual (Left iv) x"

definition ContainsInterval :: "('k::linorder, 't) Interval \<Rightarrow> ('k, 't) Interval \<Rightarrow> bool" where
  "ContainsInterval iv other \<longleftrightarrow>
     lessOrEqual (Left iv) (Left other) \<and> lessOrEqual (Right other) (Right iv)"

definition Overlaps :: "('k::linorder, 't) Interval \<Rightarrow> ('k, 't) Interval \<Rightarrow> bool" where
  "Overlaps iv with \<longleftrightarrow>
     \<not> (lessOrEqual (Right with) (Left iv) \<or> lessOrEqual (Right iv) (Left with))"

section \<open>Nodes, the tree header and the store (node.go, tree.go)\<close>

text \<open>
  Nodes live in a store indexed by addresses; a \<^verbatim>\<open>*Node\<close> is an \<open>addr option\<close> with
  \<open>None\<close> for nil. Go never frees a node that is still referenced, so the store is a
  total function and a deleted node keeps its (stale) fields. \<open>alloc\<close> is the next
  address \<^verbatim>\<open>&Node{...}\<close> hands out. The payload \<^verbatim>\<open>interface{}\<close> is \<open>'v option\<close> with
  \<open>None\<close> for nil. The fields \<open>root\<close> and \<open>length_T\<close> are the struct \<^verbatim>\<open>T\<close>; the length is
  an unbounded \<open>int\<close>, since a store cannot hold \<open>2^63\<close> nodes.
\<close>

type_synonym addr = nat

record ('k, 't, 'v) Node =
  Value :: "'v option"
  interval :: "('k, 't) Interval"
  maxRight :: "('k, 't) point"
  parent :: "addr option"
  left :: "addr option"
  right :: "addr option"
  red :: bool

record ('k, 't, 'v) state =
  heap :: "addr \<Rightarrow> ('k, 't, 'v) Node"
  alloc :: addr
  root :: "addr option"
  length_T :: int

datatype error = EmptyInterval | NilDereference

text \<open>\<open>upd a f s\<close> writes \<open>f\<close> applied to the node at \<open>a\<close> back to the store.\<close>

definition upd :: "addr \<Rightarrow> (('k, 't, 'v) Node \<Rightarrow> ('k, 't, 'v) Node) \<Rightarrow>
    ('k, 't, 'v) state \<Rightarrow> ('k, 't, 'v) state" where
  "upd a f s = s\<lparr>heap := (heap s)(a := f (heap s a))\<rparr>"

definition Len :: "('k, 't, 'v) state \<Rightarrow> int" where
  "Len s = length_T s"

definition black :: "('k, 't, 'v) state \<Rightarrow> addr option \<Rightarrow> bool" where
  "black s n = (case n of None \<Rightarrow> True | Some a \<Rightarrow> \<not> red (heap s a))"

definition sibling :: "('k, 't, 'v) state \<Rightarrow> addr option \<Rightarrow> addr option \<Rightarrow> addr option" where
  "sibling s n par =
     (case par of
        None \<Rightarrow> None
      | Some p \<Rightarrow> if left (heap s p) = n then right (heap s p) else left (heap s p))"

subsection \<open>Rotations\<close>

definition rotateLeft :: "addr \<Rightarrow> ('k::linorder, 't, 'v) state \<Rightarrow> error + ('k, 't, 'v) state" where
  "rotateLeft m s =
     (let par = parent (heap s m) in
      case right (heap s m) of
        None \<Rightarrow> Inl NilDereference
      | Some n \<Rightarrow>
         let y = left (heap s n);
             s = upd n (parent_update (\<lambda>_. par)) s;
             s = upd m (parent_update (\<lambda>_. Some n)) s;
             s = (case y of None \<Rightarrow> s | Some ya \<Rightarrow> upd ya (parent_update (\<lambda>_. Some m)) s);
             s = (case par of
                    Some p \<Rightarrow>
                      if left (heap s p) = Some m then upd p (left_update (\<lambda>_. Some n)) s
                      else upd p (right_update (\<lambda>_. Some n)) s
                  | None \<Rightarrow> s\<lparr>root := Some n\<rparr>);
             s = upd n (left_update (\<lambda>_. Some m)) s;
             s = upd m (right_update (\<lambda>_. y)) s;
             s = upd m (maxRight_update (\<lambda>_. Right (interval (heap s m)))) s;
             s = (case left (heap s m) of
                    None \<Rightarrow> s
                  | Some l \<Rightarrow>
                      if Less (maxRight (heap s m)) (maxRight (heap s l))
                      then upd m (maxRight_update (\<lambda>_. maxRight (heap s l))) s else s);
             s = (case y of
                    None \<Rightarrow> s
                  | Some ya \<Rightarrow>
                      if Less (maxRight (heap s m)) (maxRight (heap s ya))
                      then upd m (maxRight_update (\<lambda>_. maxRight (heap s ya))) s else s);
             s = (if Less (maxRight (heap s n)) (maxRight (heap s m))
                  then upd n (maxRight_update (\<lambda>_. maxRight (heap s m))) s else s)
         in Inr s)"

definition rotateRight :: "addr \<Rightarrow> ('k::linorder, 't, 'v) state \<Rightarrow> error + ('k, 't, 'v) state" where
  "rotateRight n s =
     (let par = parent (heap s n) in
      case left (heap s n) of
        None \<Rightarrow> Inl NilDereference
      | Some m \<Rightarrow>
         let y = right (heap s m);
             s = upd m (parent_update (\<lambda>_. par)) s;
             s = upd n (parent_update (\<lambda>_. Some m)) s;
             s = (case y of None \<Rightarrow> s | Some ya \<Rightarrow> upd ya (parent_update (\<lambda>_. Some n)) s);
             s = (case par of
                    Some p \<Rightarrow>
                      if left (heap s p) = Some n then upd p (left_update (\<lambda>_. Some m)) s
                      else upd p (right_update (\<lambda>_. Some m)) s
                  | None \<Rightarrow> s\<lparr>root := Some m\<rparr>);
             s = upd n (left_update (\<lambda>_. y)) s;
             s = upd m (right_update (\<lambda>_. Some n)) s;
             s = upd n (maxRight_update (\<lambda>_. Right (interval (heap s n)))) s;
             s = (case y of
                    None \<Rightarrow> s
                  | Some ya \<Rightarrow>
                      if Less (maxRight (heap s n)) (maxRight (heap s ya))
                      then upd n (maxRight_update (\<lambda>_. maxRight (heap s ya))) s else s);
             s = (case right (heap s n) of
                    None \<Rightarrow> s
                  | Some r \<Rightarrow>
                      if Less (maxRight (heap s n)) (maxRight (heap s r))
                      then upd n (maxRight_update (\<lambda>_. maxRight (heap s r))) s else s);
             s = (if Less (maxRight (heap s m)) (maxRight (heap s n))
                  then upd m (maxRight_update (\<lambda>_. maxRight (heap s n))) s else s)
         in Inr s)"

subsection \<open>Insertion\<close>

partial_function (option) rebalanceRed ::
  "addr option \<Rightarrow> ('k::linorder, 't, 'v) state \<Rightarrow> (error + ('k, 't, 'v) state) option" where
  "rebalanceRed n s =
     (if black s n then Some (Inr s)
      else case n of
        None \<Rightarrow> Some (Inl NilDereference)
      | Some na \<Rightarrow>
         (case parent (heap s na) of
            None \<Rightarrow> Some (Inr (upd na (red_update (\<lambda>_. False)) s))
          | Some p \<Rightarrow>
             if \<not> red (heap s p) then Some (Inr s)
             else
               let grandparent = parent (heap s p);
                   auncle = sibling s (Some p) grandparent
               in case grandparent of
                    None \<Rightarrow> Some (Inl NilDereference)
                  | Some g \<Rightarrow>
                     if (case auncle of None \<Rightarrow> False | Some u \<Rightarrow> red (heap s u)) then
                       (case auncle of
                          None \<Rightarrow> Some (Inl NilDereference)
                        | Some u \<Rightarrow>
                           let s = upd u (red_update (\<lambda>_. False)) s;
                               s = upd p (red_update (\<lambda>_. False)) s;
                               s = upd g (red_update (\<lambda>_. True)) s
                           in rebalanceRed (Some g) s)
                     else
                       (case
                          (if Some na = right (heap s p) \<and> Some p = left (heap s g) then
                             (case rotateLeft p s of
                                Inl e \<Rightarrow> Inl e
                              | Inr s \<Rightarrow> Inr (left (heap s na), left (heap s g), s))
                           else if Some na = left (heap s p) \<and> Some p = right (heap s g) then
                             (case rotateRight p s of
                                Inl e \<Rightarrow> Inl e
                              | Inr s \<Rightarrow> Inr (right (heap s na), right (heap s g), s))
                           else Inr (Some na, Some p, s))
                        of
                          Inl e \<Rightarrow> Some (Inl e)
                        | Inr (n', par', s) \<Rightarrow>
                           (case par' of
                              None \<Rightarrow> Some (Inl NilDereference)
                            | Some p' \<Rightarrow>
                               let s = upd p' (red_update (\<lambda>_. False)) s;
                                   s = upd g (red_update (\<lambda>_. True)) s
                               in if n' = left (heap s p') then Some (rotateRight g s)
                                  else Some (rotateLeft g s)))))"

declare rebalanceRed.simps [code]

text \<open>
  In \<open>rebalanceRed\<close> the source reads \<^verbatim>\<open>grandparent.red\<close> or \<^verbatim>\<open>grandparent.left\<close> on every
  path that passes the test of the parent's colour, so a nil grandparent panics on all of
  them; the model takes that case first.
\<close>

definition newNode :: "'v option \<Rightarrow> ('k, 't) Interval \<Rightarrow> addr option \<Rightarrow> bool \<Rightarrow> ('k, 't, 'v) Node" where
  "newNode v iv par r =
     \<lparr>Value = v, interval = iv, maxRight = Right iv, parent = par,
      left = None, right = None, red = r\<rparr>"

definition allocNode :: "('k, 't, 'v) Node \<Rightarrow> ('k, 't, 'v) state \<Rightarrow> addr \<times> ('k, 't, 'v) state" where
  "allocNode nd s = (alloc s, s\<lparr>heap := (heap s)(alloc s := nd), alloc := Suc (alloc s)\<rparr>)"

partial_function (option) replaceOrInsert ::
  "addr \<Rightarrow> ('k::linorder, 't) Interval \<Rightarrow> 'v option \<Rightarrow> ('k, 't, 'v) state \<Rightarrow>
     (error + ('v option \<times> bool) \<times> ('k, 't, 'v) state) option" where
  "replaceOrInsert n iv v s =
     (let s = (if Less (maxRight (heap s n)) (Right iv)
               then upd n (maxRight_update (\<lambda>_. Right iv)) s else s)
      in
        if Less_iv (interval (heap s n)) iv then
          (case right (heap s n) of
             Some r \<Rightarrow> replaceOrInsert r iv v s
           | None \<Rightarrow>
               let (a, s) = allocNode (newNode v iv (Some n) True) s;
                   s = upd n (right_update (\<lambda>_. Some a)) s
               in (case rebalanceRed (right (heap s n)) s of
                     None \<Rightarrow> None
                   | Some (Inl e) \<Rightarrow> Some (Inl e)
                   | Some (Inr s) \<Rightarrow>
                       Some (Inr ((None, False), s\<lparr>length_T := length_T s + 1\<rparr>))))
        else if Less_iv iv (interval (heap s n)) then
          (case left (heap s n) of
             Some l \<Rightarrow> replaceOrInsert l iv v s
           | None \<Rightarrow>
               let (a, s) = allocNode (newNode v iv (Some n) True) s;
                   s = upd n (left_update (\<lambda>_. Some a)) s
               in (case rebalanceRed (left (heap s n)) s of
                     None \<Rightarrow> None
                   | Some (Inl e) \<Rightarrow> Some (Inl e)
                   | Some (Inr s) \<Rightarrow>
                       Some (Inr ((None, False), s\<lparr>length_T := length_T s + 1\<rparr>))))
        else
          (let previous = Value (heap s n)
           in Some (Inr ((previous, True), upd n (Value_update (\<lambda>_. v)) s))))"

declare replaceOrInsert.simps [code]

definition ReplaceOrInsert ::
  "('k::linorder, 't) Interval \<Rightarrow> 'v option \<Rightarrow> ('k, 't, 'v) state \<Rightarrow>
     (error + ('v option \<times> bool) \<times> ('k, 't, 'v) state) option" where
  "ReplaceOrInsert iv v s =
     (if empty_iv iv then Some (Inl EmptyInterval)
      else if length_T s = 0 then
        (let (a, s) = allocNode (newNode v iv None False) s
         in Some (Inr ((None, False), s\<lparr>root := Some a, length_T := 1\<rparr>)))
      else
        (case root s of
           None \<Rightarrow> Some (Inl NilDereference)
         | Some r \<Rightarrow> replaceOrInsert r iv v s))"

subsection \<open>Lookup and neighbour queries\<close>

text \<open>
  Each \<^verbatim>\<open>for current := t.root; current != nil;\<close> loop is a function of the loop
  variables \<open>current\<close> (and \<open>candidate\<close>); a loop that does not end has the value \<open>None\<close>.
\<close>

partial_function (option) GetNode_loop ::
  "('k::linorder, 't, 'v) state \<Rightarrow> ('k, 't) Interval \<Rightarrow> addr option \<Rightarrow> addr option option" where
  "GetNode_loop s iv current =
     (case current of
        None \<Rightarrow> Some None
      | Some c \<Rightarrow>
          if Less_iv iv (interval (heap s c)) then GetNode_loop s iv (left (heap s c))
          else if Less_iv (interval (heap s c)) iv then GetNode_loop s iv (right (heap s c))
          else Some (Some c))"

declare GetNode_loop.simps [code]

definition GetNode ::
  "('k::linorder, 't, 'v) state \<Rightarrow> ('k, 't) Interval \<Rightarrow> (error + addr option) option" where
  "GetNode s iv =
     (if empty_iv iv then Some (Inl EmptyInterval)
      else map_option Inr (GetNode_loop s iv (root s)))"

partial_function (option) GetMin_loop ::
  "('k, 't, 'v) state \<Rightarrow> addr option \<Rightarrow> addr option \<Rightarrow> addr option option" where
  "GetMin_loop s candidate current =
     (case current of
        None \<Rightarrow> Some candidate
      | Some c \<Rightarrow> GetMin_loop s (Some c) (left (heap s c)))"

declare GetMin_loop.simps [code]

definition GetMin :: "('k, 't, 'v) state \<Rightarrow> addr option option" where
  "GetMin s = GetMin_loop s None (root s)"

partial_function (option) GetMax_loop ::
  "('k, 't, 'v) state \<Rightarrow> addr option \<Rightarrow> addr option \<Rightarrow> addr option option" where
  "GetMax_loop s candidate current =
     (case current of
        None \<Rightarrow> Some candidate
      | Some c \<Rightarrow> GetMax_loop s (Some c) (right (heap s c)))"

declare GetMax_loop.simps [code]

definition GetMax :: "('k, 't, 'v) state \<Rightarrow> addr option option" where
  "GetMax s = GetMax_loop s None (root s)"

partial_function (option) GetLess_loop ::
  "('k::linorder, 't, 'v) state \<Rightarrow> ('k, 't) Interval \<Rightarrow> addr option \<Rightarrow> addr option \<Rightarrow>
     addr option option" where
  "GetLess_loop s iv candidate current =
     (case current of
        None \<Rightarrow> Some candidate
      | Some c \<Rightarrow>
          if Less_iv (interval (heap s c)) iv
          then GetLess_loop s iv (Some c) (right (heap s c))
          else GetLess_loop s iv candidate (left (heap s c)))"

declare GetLess_loop.simps [code]

definition GetLess ::
  "('k::linorder, 't, 'v) state \<Rightarrow> ('k, 't) Interval \<Rightarrow> (error + addr option) option" where
  "GetLess s iv =
     (if empty_iv iv then Some (Inl EmptyInterval)
      else map_option Inr (GetLess_loop s iv None (root s)))"

partial_function (option) GetLessEqual_loop ::
  "('k::linorder, 't, 'v) state \<Rightarrow> ('k, 't) Interval \<Rightarrow> addr option \<Rightarrow> addr option \<Rightarrow>
     addr option option" where
  "GetLessEqual_loop s iv candidate current =
     (case current of
        None \<Rightarrow> Some candidate
      | Some c \<Rightarrow>
          if Less_iv iv (interval (heap s c))
          then GetLessEqual_loop s iv candidate (left (heap s c))
          else GetLessEqual_loop s iv (Some c) (right (heap s c)))"

declare GetLessEqual_loop.simps [code]

definition GetLessEqual ::
  "('k::linorder, 't, 'v) state \<Rightarrow> ('k, 't) Interval \<Rightarrow> (error + addr option) option" where
  "GetLessEqual s iv =
     (if empty_iv iv then Some (Inl EmptyInterval)
      else map_option Inr (GetLessEqual_loop s iv None (root s)))"

partial_function (option) GetGreater_loop ::
  "('k::linorder, 't, 'v) state \<Rightarrow> ('k, 't) Interval \<Rightarrow> addr option \<Rightarrow> addr option \<Rightarrow>
     addr option option" where
  "GetGreater_loop s iv candidate current =
     (case current of
        None \<Rightarrow> Some candidate
      | Some c \<Rightarrow>
          if Less_iv iv (interval (heap s c))
          then GetGreater_loop s iv (Some c) (left (heap s c))
          else GetGreater_loop s iv candidate (right (heap s c)))"

declare GetGreater_loop.simps [code]

definition GetGreater ::
  "('k::linorder, 't, 'v) state \<Rightarrow> ('k, 't) Interval \<Rightarrow> (error + addr option) option" where
  "GetGreater s iv =
     (if empty_iv iv then Some (Inl EmptyInterval)
      else map_option Inr (GetGreater_loop s iv None (root s)))"

partial_function (option) GetGreaterEqual_loop ::
  "('k::linorder, 't, 'v) state \<Rightarrow> ('k, 't) Interval \<Rightarrow> addr option \<Rightarrow> addr option \<Rightarrow>
     addr option option" where
  "GetGreaterEqual_loop s iv candidate current =
     (case current of
        None \<Rightarrow> Some candidate
      | Some c \<Rightarrow>
          if Less_iv (interval (heap s c)) iv
          then GetGreaterEqual_loop s iv candidate (right (heap s c))
          else GetGreaterEqual_loop s iv (Some c) (left (heap s c)))"

declare GetGreaterEqual_loop.simps [code]

definition GetGreaterEqual ::
  "('k::linorder, 't, 'v) state \<Rightarrow> ('k, 't) Interval \<Rightarrow> (error + addr option) option" where
  "GetGreaterEqual s iv =
     (if empty_iv iv then Some (Inl EmptyInterval)
      else map_option Inr (GetGreaterEqual_loop s iv None (root s)))"

definition Get ::
  "('k::linorder, 't, 'v) state \<Rightarrow> ('k, 't) Interval \<Rightarrow> (error + 'v option \<times> bool) option" where
  "Get s iv =
     (case GetNode s iv of
        None \<Rightarrow> None
      | Some (Inl e) \<Rightarrow> Some (Inl e)
      | Some (Inr None) \<Rightarrow> Some (Inr (None, False))
      | Some (Inr (Some node)) \<Rightarrow> Some (Inr (Value (heap s node), True)))"

subsection \<open>Range queries\<close>

text \<open>
  The four visitors take the receiver \<open>n\<close> (never nil: every caller tests the pointer
  first), the list built so far and the query. A nil slice and an empty slice are both
  the empty list.
\<close>

partial_function (option) nodesContainingPoint ::
  "('k::linorder, 't, 'v) state \<Rightarrow> addr \<Rightarrow> addr list \<Rightarrow> ('k, 't) point \<Rightarrow> addr list option" where
  "nodesContainingPoint s n list p =
     (if lessOrEqual (maxRight (heap s n)) p then Some list
      else
        Option.bind
          (case left (heap s n) of
             None \<Rightarrow> Some list
           | Some l \<Rightarrow> nodesContainingPoint s l list p)
          (\<lambda>list.
             if lessOrEqual (Left (interval (heap s n))) p then
               (let list = (if Less p (Right (interval (heap s n))) then list @ [n] else list)
                in case right (heap s n) of
                     None \<Rightarrow> Some list
                   | Some r \<Rightarrow> nodesContainingPoint s r list p)
             else Some list))"

declare nodesContainingPoint.simps [code]

partial_function (option) nodesContainingInterval ::
  "('k::linorder, 't, 'v) state \<Rightarrow> addr \<Rightarrow> addr list \<Rightarrow> ('k, 't) Interval \<Rightarrow> addr list option" where
  "nodesContainingInterval s n list iv =
     (if Less (maxRight (heap s n)) (Right iv) then Some list
      else
        Option.bind
          (case left (heap s n) of
             None \<Rightarrow> Some list
           | Some l \<Rightarrow> nodesContainingInterval s l list iv)
          (\<lambda>list.
             if lessOrEqual (Left (interval (heap s n))) (Left iv) then
               (let list = (if lessOrEqual (Right iv) (Right (interval (heap s n)))
                            then list @ [n] else list)
                in case right (heap s n) of
                     None \<Rightarrow> Some list
                   | Some r \<Rightarrow> nodesContainingInterval s r list iv)
             else Some list))"

declare nodesContainingInterval.simps [code]

partial_function (option) nodesContainedInInterval ::
  "('k::linorder, 't, 'v) state \<Rightarrow> addr \<Rightarrow> addr list \<Rightarrow> ('k, 't) Interval \<Rightarrow> addr list option" where
  "nodesContainedInInterval s n list iv =
     (if lessOrEqual (maxRight (heap s n)) (Left iv) then Some list
      else
        Option.bind
          (if lessOrEqual (Left iv) (Left (interval (heap s n))) then
             Option.bind
               (case left (heap s n) of
                  None \<Rightarrow> Some list
                | Some l \<Rightarrow> nodesContainedInInterval s l list iv)
               (\<lambda>list.
                  Some (if lessOrEqual (Right (interval (heap s n))) (Right iv)
                        then list @ [n] else list))
           else Some list)
          (\<lambda>list.
             case right (heap s n) of
               None \<Rightarrow> Some list
             | Some r \<Rightarrow> nodesContainedInInterval s r list iv))"

declare nodesContainedInInterval.simps [code]

partial_function (option) nodesOverlappingInterval ::
  "('k::linorder, 't, 'v) state \<Rightarrow> addr \<Rightarrow> addr list \<Rightarrow> ('k, 't) Interval \<Rightarrow> addr list option" where
  "nodesOverlappingInterval s n list iv =
     (if lessOrEqual (maxRight (heap s n)) (Left iv) then Some list
      else
        Option.bind
          (if Less (Left iv) (Right (interval (heap s n))) then
             Option.bind
               (case left (heap s n) of
                  None \<Rightarrow> Some list
                | Some l \<Rightarrow> nodesOverlappingInterval s l list iv)
               (\<lambda>list.
                  Some (if Less (Left (interval (heap s n))) (Right iv)
                        then list @ [n] else list))
           else Some list)
          (\<lambda>list.
             case right (heap s n) of
               None \<Rightarrow> Some list
             | Some r \<Rightarrow> nodesOverlappingInterval s r list iv))"

declare nodesOverlappingInterval.simps [code]

definition NodesContainingPoint ::
  "('k::linorder, 't, 'v) state \<Rightarrow> ('k, 't) point \<Rightarrow> (error + addr list) option" where
  "NodesContainingPoint s p =
     (case root s of
        None \<Rightarrow> Some (Inr [])
      | Some r \<Rightarrow> map_option Inr (nodesContainingPoint s r [] p))"

definition NodesContainingInterval ::
  "('k::linorder, 't, 'v) state \<Rightarrow> ('k, 't) Interval \<Rightarrow> (error + addr list) option" where
  "NodesContainingInterval s iv =
     (if empty_iv iv then Some (Inl EmptyInterval)
      else case root s of
        None \<Rightarrow> Some (Inr [])
      | Some r \<Rightarrow> map_option Inr (nodesContainingInterval s r [] iv))"

definition NodesContainedInInterval ::
  "('k::linorder, 't, 'v) state \<Rightarrow> ('k, 't) Interval \<Rightarrow> (error + addr list) option" where
  "NodesContainedInInterval s iv =
     (if empty_iv iv then Some (Inl EmptyInterval)
      else case root s of
        None \<Rightarrow> Some (Inr [])
      | Some r \<Rightarrow> map_option Inr (nodesContainedInInterval s r [] iv))"

definition NodesOverlappingInterval ::
  "('k::linorder, 't, 'v) state \<Rightarrow> ('k, 't) Interval \<Rightarrow> (error + addr list) option" where
  "NodesOverlappingInterval s iv =
     (if empty_iv iv then Some (Inl EmptyInterval)
      else case root s of
        None \<Rightarrow> Some (Inr [])
      | Some r \<Rightarrow> map_option Inr (nodesOverlappingInterval s r [] iv))"

subsection \<open>Ordered traversal\<close>

partial_function (option) Next_up :: "('k, 't, 'v) state \<Rightarrow> addr \<Rightarrow> addr option option" where
  "Next_up s candidate =
     (case parent (heap s candidate) of
        None \<Rightarrow> Some None
      | Some p \<Rightarrow>
          if left (heap s p) = Some candidate then Some (Some p)
          else Next_up s p)"

declare Next_up.simps [code]

partial_function (option) Next_down :: "('k, 't, 'v) state \<Rightarrow> addr \<Rightarrow> addr option option" where
  "Next_down s candidate =
     (case left (heap s candidate) of
        None \<Rightarrow> Some (Some candidate)
      | Some l \<Rightarrow> Next_down s l)"

declare Next_down.simps [code]

definition Next :: "('k, 't, 'v) state \<Rightarrow> addr \<Rightarrow> addr option option" where
  "Next s n =
     (case right (heap s n) of
        None \<Rightarrow> Next_up s n
      | Some r \<Rightarrow> Next_down s r)"

partial_function (option) Previous_up :: "('k, 't, 'v) state \<Rightarrow> addr \<Rightarrow> addr option option" where
  "Previous_up s candidate =
     (case parent (heap s candidate) of
        None \<Rightarrow> Some None
      | Some p \<Rightarrow>
          if right (heap s p) = Some candidate then Some (Some p)
          else Previous_up s p)"

declare Previous_up.simps [code]

partial_function (option) Previous_down :: "('k, 't, 'v) state \<Rightarrow> addr \<Rightarrow> addr option option" where
  "Previous_down s candidate =
     (case right (heap s candidate) of
        None \<Rightarrow> Some (Some candidate)
      | Some r \<Rightarrow> Previous_down s r)"

declare Previous_down.simps [code]

definition Previous :: "('k, 't, 'v) state \<Rightarrow> addr \<Rightarrow> addr option option" where
  "Previous s n =
     (case left (heap s n) of
        None \<Rightarrow> Previous_up s n
      | Some l \<Rightarrow> Previous_down s l)"

subsection \<open>Deletion\<close>

partial_function (option) rebalanceBlack ::
  "addr option \<Rightarrow> addr option \<Rightarrow> ('k::linorder, 't, 'v) state \<Rightarrow>
     (error + ('k, 't, 'v) state) option" where
  "rebalanceBlack par n s =
     (case par of
        None \<Rightarrow> Some (Inr s)
      | Some p \<Rightarrow>
         (case sibling s n (Some p) of
            None \<Rightarrow> Some (Inl NilDereference)
          | Some sib \<Rightarrow>
             (case
                (if red (heap s sib) then
                   (let s = upd p (red_update (\<lambda>_. True)) s;
                        s = upd sib (red_update (\<lambda>_. False)) s
                    in if n = left (heap s p) then rotateLeft p s else rotateRight p s)
                 else Inr s)
              of
                Inl e \<Rightarrow> Some (Inl e)
              | Inr s \<Rightarrow>
                 (case sibling s n (Some p) of
                    None \<Rightarrow> Some (Inl NilDereference)
                  | Some sib \<Rightarrow>
                     let lniecew = left (heap s sib);
                         rniecew = right (heap s sib)
                     in
                       if black s (Some sib) \<and> black s lniecew \<and> black s rniecew then
                         (let s = upd sib (red_update (\<lambda>_. True)) s
                          in if red (heap s p)
                             then Some (Inr (upd p (red_update (\<lambda>_. False)) s))
                             else rebalanceBlack (parent (heap s p)) (Some p) s)
                       else
                         (case
                            (if n = left (heap s p) \<and> black s rniecew then
                               (case lniecew of
                                  None \<Rightarrow> Inl NilDereference
                                | Some ln \<Rightarrow>
                                    let s = upd sib (red_update (\<lambda>_. True)) s;
                                        s = upd ln (red_update (\<lambda>_. False)) s
                                    in rotateRight sib s)
                             else if n = right (heap s p) \<and> black s lniecew then
                               (case rniecew of
                                  None \<Rightarrow> Inl NilDereference
                                | Some rn \<Rightarrow>
                                    let s = upd sib (red_update (\<lambda>_. True)) s;
                                        s = upd rn (red_update (\<lambda>_. False)) s
                                    in rotateLeft sib s)
                             else Inr s)
                          of
                            Inl e \<Rightarrow> Some (Inl e)
                          | Inr s \<Rightarrow>
                             (case sibling s n (Some p) of
                                None \<Rightarrow> Some (Inl NilDereference)
                              | Some sib \<Rightarrow>
                                 let lniecew = left (heap s sib);
                                     rniecew = right (heap s sib);
                                     s = upd sib (red_update (\<lambda>_. red (heap s p))) s;
                                     s = upd p (red_update (\<lambda>_. False)) s
                                 in
                                   if n = left (heap s p) then
                                     Some (rotateLeft p
                                       (case rniecew of
                                          None \<Rightarrow> s
                                        | Some rn \<Rightarrow> upd rn (red_update (\<lambda>_. False)) s))
                                   else
                                     Some (rotateRight p
                                       (case lniecew of
                                          None \<Rightarrow> s
                                        | Some ln \<Rightarrow> upd ln (red_update (\<lambda>_. False)) s))))))))"

declare rebalanceBlack.simps [code]

text \<open>
  The do-while loop of \<open>DeleteNode\<close>: the body \<^verbatim>\<open>candidate = candidate.right\<close> runs once
  before the test \<^verbatim>\<open>candidate.right != nil\<close> is made on the new candidate.
\<close>

partial_function (option) DeleteNode_dowhile ::
  "('k, 't, 'v) state \<Rightarrow> addr \<Rightarrow> (error + addr) option" where
  "DeleteNode_dowhile s candidate =
     (case right (heap s candidate) of
        None \<Rightarrow> Some (Inl NilDereference)
      | Some c \<Rightarrow>
          if right (heap s c) \<noteq> None then DeleteNode_dowhile s c else Some (Inr c))"

declare DeleteNode_dowhile.simps [code]

text \<open>
  The two-children branch of \<open>DeleteNode\<close>: \<open>n\<close> changes places with the greatest node of
  its left subtree. A tuple assignment reads its right-hand sides before it writes.
\<close>

definition DeleteNode_swap ::
  "addr \<Rightarrow> ('k, 't, 'v) state \<Rightarrow> (error + ('k, 't, 'v) state) option" where
  "DeleteNode_swap n s =
     (let par = parent (heap s n) in
      case left (heap s n) of
        None \<Rightarrow> Some (Inl NilDereference)
      | Some candidate \<Rightarrow>
         (case
            (if right (heap s candidate) = None then
               (let s = (case par of
                           Some p \<Rightarrow>
                             if left (heap s p) = Some n
                             then upd p (left_update (\<lambda>_. Some candidate)) s
                             else upd p (right_update (\<lambda>_. Some candidate)) s
                         | None \<Rightarrow> s\<lparr>root := Some candidate\<rparr>)
                in case right (heap s n) of
                     None \<Rightarrow> Some (Inl NilDereference)
                   | Some r \<Rightarrow>
                      let s = upd r (parent_update (\<lambda>_. Some candidate)) s;
                          s = (case left (heap s candidate) of
                                 None \<Rightarrow> s
                               | Some cl \<Rightarrow> upd cl (parent_update (\<lambda>_. Some n)) s);
                          cl = left (heap s candidate);
                          s = upd candidate (left_update (\<lambda>_. Some n)) s;
                          s = upd n (left_update (\<lambda>_. cl)) s;
                          nr = right (heap s n);
                          s = upd candidate (right_update (\<lambda>_. nr)) s;
                          s = upd n (right_update (\<lambda>_. None)) s;
                          np = parent (heap s n);
                          s = upd candidate (parent_update (\<lambda>_. np)) s;
                          s = upd n (parent_update (\<lambda>_. Some candidate)) s
                      in Some (Inr (candidate, s)))
             else
               (case DeleteNode_dowhile s candidate of
                  None \<Rightarrow> None
                | Some (Inl e) \<Rightarrow> Some (Inl e)
                | Some (Inr candidate) \<Rightarrow>
                   let s = (case par of
                              Some p \<Rightarrow>
                                if left (heap s p) = Some n
                                then upd p (left_update (\<lambda>_. Some candidate)) s
                                else upd p (right_update (\<lambda>_. Some candidate)) s
                            | None \<Rightarrow> s\<lparr>root := Some candidate\<rparr>)
                   in case left (heap s n) of
                        None \<Rightarrow> Some (Inl NilDereference)
                      | Some l \<Rightarrow>
                         let s = upd l (parent_update (\<lambda>_. Some candidate)) s
                         in case right (heap s n) of
                              None \<Rightarrow> Some (Inl NilDereference)
                            | Some r \<Rightarrow>
                               let s = upd r (parent_update (\<lambda>_. Some candidate)) s
                               in case parent (heap s candidate) of
                                    None \<Rightarrow> Some (Inl NilDereference)
                                  | Some cp \<Rightarrow>
                                     let s = upd cp (right_update (\<lambda>_. Some n)) s;
                                         s = (case left (heap s candidate) of
                                                None \<Rightarrow> s
                                              | Some cl \<Rightarrow>
                                                  upd cl (parent_update (\<lambda>_. Some n)) s);
                                         nl = left (heap s n);
                                         cl = left (heap s candidate);
                                         s = upd candidate (left_update (\<lambda>_. nl)) s;
                                         s = upd n (left_update (\<lambda>_. cl)) s;
                                         nr = right (heap s n);
                                         cr = right (heap s candidate);
                                         s = upd candidate (right_update (\<lambda>_. nr)) s;
                                         s = upd n (right_update (\<lambda>_. cr)) s;
                                         np = parent (heap s n);
                                         cp = parent (heap s candidate);
                                         s = upd candidate (parent_update (\<lambda>_. np)) s;
                                         s = upd n (parent_update (\<lambda>_. cp)) s
                                     in Some (Inr (candidate, s))))
          of
            None \<Rightarrow> None
          | Some (Inl e) \<Rightarrow> Some (Inl e)
          | Some (Inr (candidate, s)) \<Rightarrow>
             let nred = red (heap s n);
                 cred = red (heap s candidate);
                 s = upd n (red_update (\<lambda>_. cred)) s;
                 s = upd candidate (red_update (\<lambda>_. nred)) s
             in Some (Inr s)))"

text \<open>The loop \<^verbatim>\<open>for current := parent; current != nil; current = current.parent\<close>.\<close>

partial_function (option) DeleteNode_fix ::
  "addr option \<Rightarrow> ('k::linorder, 't, 'v) state \<Rightarrow> ('k, 't, 'v) state option" where
  "DeleteNode_fix current s =
     (case current of
        None \<Rightarrow> Some s
      | Some c \<Rightarrow>
         let s = upd c (maxRight_update (\<lambda>_. Right (interval (heap s c)))) s;
             s = (case left (heap s c) of
                    None \<Rightarrow> s
                  | Some l \<Rightarrow>
                      if Less (maxRight (heap s c)) (maxRight (heap s l))
                      then upd c (maxRight_update (\<lambda>_. maxRight (heap s l))) s else s);
             s = (case right (heap s c) of
                    None \<Rightarrow> s
                  | Some r \<Rightarrow>
                      if Less (maxRight (heap s c)) (maxRight (heap s r))
                      then upd c (maxRight_update (\<lambda>_. maxRight (heap s r))) s else s)
         in DeleteNode_fix (parent (heap s c)) s)"

declare DeleteNode_fix.simps [code]

definition DeleteNode ::
  "addr \<Rightarrow> ('k::linorder, 't, 'v) state \<Rightarrow> (error + ('k, 't, 'v) state) option" where
  "DeleteNode n s =
     (case
        (if left (heap s n) \<noteq> None \<and> right (heap s n) \<noteq> None then DeleteNode_swap n s
         else Some (Inr s))
      of
        None \<Rightarrow> None
      | Some (Inl e) \<Rightarrow> Some (Inl e)
      | Some (Inr s) \<Rightarrow>
         let par = parent (heap s n);
             child = (case left (heap s n) of None \<Rightarrow> right (heap s n) | Some l \<Rightarrow> Some l);
             s = (case child of None \<Rightarrow> s | Some c \<Rightarrow> upd c (parent_update (\<lambda>_. par)) s);
             s = (case par of
                    Some p \<Rightarrow>
                      if left (heap s p) = Some n then upd p (left_update (\<lambda>_. child)) s
                      else upd p (right_update (\<lambda>_. child)) s
                  | None \<Rightarrow> s\<lparr>root := child\<rparr>)
         in case DeleteNode_fix par s of
              None \<Rightarrow> None
            | Some s \<Rightarrow>
               (case
                  (if \<not> red (heap s n) then
                     (case child of
                        None \<Rightarrow> rebalanceBlack par child s
                      | Some c \<Rightarrow>
                          if red (heap s c) then Some (Inr (upd c (red_update (\<lambda>_. False)) s))
                          else rebalanceBlack par child s)
                   else Some (Inr s))
                of
                  None \<Rightarrow> None
                | Some (Inl e) \<Rightarrow> Some (Inl e)
                | Some (Inr s) \<Rightarrow> Some (Inr (s\<lparr>length_T := length_T s - 1\<rparr>))))"

definition Delete ::
  "('k::linorder, 't) Interval \<Rightarrow> ('k, 't, 'v) state \<Rightarrow>
     (error + ('v option \<times> bool) \<times> ('k, 't, 'v) state) option" where
  "Delete iv s =
     (case GetNode s iv of
        None \<Rightarrow> None
      | Some (Inl e) \<Rightarrow> Some (Inl e)
      | Some (Inr None) \<Rightarrow> Some (Inr ((None, False), s))
      | Some (Inr (Some n)) \<Rightarrow>
         let v = Value (heap s n)
         in case DeleteNode n s of
              None \<Rightarrow> None
            | Some (Inl e) \<Rightarrow> Some (Inl e)
            | Some (Inr s) \<Rightarrow> Some (Inr ((v, True), s)))"

section \<open>Sequences of operations, the empty tree and example data\<close>

text \<open>
  The zero value of \<^verbatim>\<open>T\<close> in a store \<open>h\<close> whose next free address is \<open>a\<close>. The rest of the
  store is arbitrary: an empty tree can live next to any other data.
\<close>

definition emptyT :: "(addr \<Rightarrow> ('k, 't, 'v) Node) \<Rightarrow> addr \<Rightarrow> ('k, 't, 'v) state" where
  "emptyT h a = \<lparr>heap = h, alloc = a, root = None, length_T = 0\<rparr>"

datatype ('k, 't, 'v) op =
    OpReplaceOrInsert "('k, 't) Interval" "'v option"
  | OpDelete "('k, 't) Interval"
  | OpDeleteNode addr

fun step :: "('k::linorder, 't, 'v) op \<Rightarrow> ('k, 't, 'v) state \<Rightarrow>
    (error + ('k, 't, 'v) state) option" where
  "step (OpReplaceOrInsert iv v) s = map_option (map_sum id snd) (ReplaceOrInsert iv v s)"
| "step (OpDelete iv) s = map_option (map_sum id snd) (Delete iv s)"
| "step (OpDeleteNode n) s = DeleteNode n s"

fun run :: "('k::linorder, 't, 'v) op list \<Rightarrow> ('k, 't, 'v) state \<Rightarrow>
    (error + ('k, 't, 'v) state) option" where
  "run [] s = Some (Inr s)"
| "run (x # xs) s =
     (case step x s of
        None \<Rightarrow> None
      | Some (Inl e) \<Rightarrow> Some (Inl e)
      | Some (Inr s') \<Rightarrow> run xs s')"

text \<open>Example data: intervals over the integers (the adapter \<^verbatim>\<open>Int\<close>), payloads in \<open>nat\<close>.\<close>

definition ex_iv :: "int \<Rightarrow> int \<Rightarrow> (int, unit) Interval" where
  "ex_iv l r = \<lparr>Left = Point l (), Right = Point r ()\<rparr>"

definition ex_heap :: "addr \<Rightarrow> (int, unit, nat) Node" where
  "ex_heap = (\<lambda>_. newNode None (ex_iv 0 0) None False)"


text \<open>The tree with the keys \<open>[0,1)\<close>, \<open>[1,2)\<close> and \<open>[2,3)\<close>, built by three insertions.\<close>

definition ex_state :: "(int, unit, nat) state" where
  "ex_state =
     (case run [OpReplaceOrInsert (ex_iv 0 1) (Some 0), OpReplaceOrInsert (ex_iv 1 2) (Some 1),
                OpReplaceOrInsert (ex_iv 2 3) (Some 2)] (emptyT ex_heap 0) of
        Some (Inr s) \<Rightarrow> s
      | _ \<Rightarrow> emptyT ex_heap 0)"

section \<open>The tree a store holds, and its invariants\<close>

datatype shape = Lf | Nd shape addr shape

fun nodes :: "shape \<Rightarrow> addr list" where
  "nodes Lf = []"
| "nodes (Nd l a r) = nodes l @ a # nodes r"

fun rootp :: "shape \<Rightarrow> addr option" where
  "rootp Lf = None"
| "rootp (Nd l a r) = Some a"

fun is_tree :: "('k, 't, 'v) state \<Rightarrow> addr option \<Rightarrow> addr option \<Rightarrow> shape \<Rightarrow> bool" where
  "is_tree s par p Lf = (p = None)"
| "is_tree s par p (Nd l a r) =
     (p = Some a \<and> parent (heap s a) = par \<and>
      is_tree s (Some a) (left (heap s a)) l \<and>
      is_tree s (Some a) (right (heap s a)) r)"

datatype frame = FL addr shape | FR addr shape

fun plug :: "frame list \<Rightarrow> shape \<Rightarrow> shape" where
  "plug [] t = t"
| "plug (FL a sib # c) t = plug c (Nd t a sib)"
| "plug (FR a sib # c) t = plug c (Nd sib a t)"

fun cpar :: "frame list \<Rightarrow> addr option" where
  "cpar [] = None"
| "cpar (FL a sib # c) = Some a"
| "cpar (FR a sib # c) = Some a"

fun cbefore :: "frame list \<Rightarrow> addr list" where
  "cbefore [] = []"
| "cbefore (FL a sib # c) = cbefore c"
| "cbefore (FR a sib # c) = cbefore c @ nodes sib @ [a]"

fun cafter :: "frame list \<Rightarrow> addr list" where
  "cafter [] = []"
| "cafter (FL a sib # c) = a # nodes sib @ cafter c"
| "cafter (FR a sib # c) = cafter c"

fun is_ctx :: "('k, 't, 'v) state \<Rightarrow> frame list \<Rightarrow> addr option \<Rightarrow> bool" where
  "is_ctx s [] p = (root s = p)"
| "is_ctx s (FL a sib # c) p =
     (left (heap s a) = p \<and> parent (heap s a) = cpar c \<and>
      is_tree s (Some a) (right (heap s a)) sib \<and> is_ctx s c (Some a))"
| "is_ctx s (FR a sib # c) p =
     (right (heap s a) = p \<and> parent (heap s a) = cpar c \<and>
      is_tree s (Some a) (left (heap s a)) sib \<and> is_ctx s c (Some a))"

definition same_links :: "('k, 't, 'v) state \<Rightarrow> ('k, 't, 'v) state \<Rightarrow> addr \<Rightarrow> bool" where
  "same_links s s' a \<longleftrightarrow>
     left (heap s' a) = left (heap s a) \<and> right (heap s' a) = right (heap s a) \<and>
     parent (heap s' a) = parent (heap s a)"

definition maxpt :: "('k::linorder, 't) point \<Rightarrow> ('k, 't) point option \<Rightarrow> ('k, 't) point" where
  "maxpt x vo = (case vo of None \<Rightarrow> x | Some v \<Rightarrow> if Less x v then v else x)"

definition mrp :: "('k, 't, 'v) state \<Rightarrow> addr option \<Rightarrow> ('k, 't) point option" where
  "mrp s q = map_option (\<lambda>a. maxRight (heap s a)) q"

definition rotL_m :: "('k::linorder, 't, 'v) state \<Rightarrow> addr \<Rightarrow> addr \<Rightarrow> ('k, 't, 'v) Node" where
  "rotL_m s m n =
     (heap s m)\<lparr>parent := Some n, right := left (heap s n),
       maxRight := maxpt (maxpt (Right (interval (heap s m))) (mrp s (left (heap s m))))
                     (mrp s (left (heap s n)))\<rparr>"

definition rotL_n :: "('k::linorder, 't, 'v) state \<Rightarrow> addr \<Rightarrow> addr \<Rightarrow> ('k, 't, 'v) Node" where
  "rotL_n s m n =
     (heap s n)\<lparr>parent := parent (heap s m), left := Some m,
       maxRight := maxpt (maxRight (heap s n)) (Some (maxRight (rotL_m s m n)))\<rparr>"

definition relink :: "('k, 't, 'v) state \<Rightarrow> addr \<Rightarrow> addr \<Rightarrow> addr option \<Rightarrow> ('k, 't, 'v) Node" where
  "relink s pa m q =
     (if left (heap s pa) = Some m then (heap s pa)\<lparr>left := q\<rparr> else (heap s pa)\<lparr>right := q\<rparr>)"

definition rotR_n :: "('k::linorder, 't, 'v) state \<Rightarrow> addr \<Rightarrow> addr \<Rightarrow> ('k, 't, 'v) Node" where
  "rotR_n s n m =
     (heap s n)\<lparr>parent := Some m, left := right (heap s m),
       maxRight := maxpt (maxpt (Right (interval (heap s n))) (mrp s (right (heap s m))))
                     (mrp s (right (heap s n)))\<rparr>"

definition rotR_m :: "('k::linorder, 't, 'v) state \<Rightarrow> addr \<Rightarrow> addr \<Rightarrow> ('k, 't, 'v) Node" where
  "rotR_m s n m =
     (heap s m)\<lparr>parent := parent (heap s n), right := Some n,
       maxRight := maxpt (maxRight (heap s m)) (Some (maxRight (rotR_n s n m)))\<rparr>"

definition max3 :: "'k::linorder \<Rightarrow> 'k option \<Rightarrow> 'k option \<Rightarrow> 'k" where
  "max3 x l r =
     (let m = (case l of None \<Rightarrow> x | Some y \<Rightarrow> max x y)
      in case r of None \<Rightarrow> m | Some z \<Rightarrow> max m z)"

definition mr :: "('k, 't, 'v) state \<Rightarrow> addr option \<Rightarrow> 'k option" where
  "mr s p = map_option (\<lambda>a. rank (maxRight (heap s a))) p"

fun shape_of :: "nat \<Rightarrow> ('k, 't, 'v) state \<Rightarrow> addr option \<Rightarrow> shape" where
  "shape_of 0 s p = Lf"
| "shape_of (Suc k) s None = Lf"
| "shape_of (Suc k) s (Some a) =
     Nd (shape_of k s (left (heap s a))) a (shape_of k s (right (heap s a)))"

definition tree_of :: "('k, 't, 'v) state \<Rightarrow> shape" where
  "tree_of s = shape_of (alloc s) s (root s)"

definition bst :: "('k::linorder, 't, 'v) state \<Rightarrow> shape \<Rightarrow> bool" where
  "bst s t \<longleftrightarrow> sorted_wrt Less_iv (map (\<lambda>a. interval (heap s a)) (nodes t))"

fun bheight :: "('k, 't, 'v) state \<Rightarrow> shape \<Rightarrow> nat" where
  "bheight s Lf = 1"
| "bheight s (Nd l a r) = bheight s l + (if red (heap s a) then 0 else 1)"

fun balanced :: "('k, 't, 'v) state \<Rightarrow> shape \<Rightarrow> bool" where
  "balanced s Lf = True"
| "balanced s (Nd l a r) = (balanced s l \<and> balanced s r \<and> bheight s l = bheight s r)"

fun no_red_red :: "('k, 't, 'v) state \<Rightarrow> shape \<Rightarrow> bool" where
  "no_red_red s Lf = True"
| "no_red_red s (Nd l a r) =
     (no_red_red s l \<and> no_red_red s r \<and>
      (red (heap s a) \<longrightarrow> black s (rootp l) \<and> black s (rootp r)))"

fun mr_inv :: "('k::linorder, 't, 'v) state \<Rightarrow> shape \<Rightarrow> bool" where
  "mr_inv s Lf = True"
| "mr_inv s (Nd l a r) =
     (mr_inv s l \<and> mr_inv s r \<and>
      rank (maxRight (heap s a)) =
        max3 (rank (Right (interval (heap s a)))) (mr s (rootp l)) (mr s (rootp r)))"

definition repr :: "('k, 't, 'v) state \<Rightarrow> shape \<Rightarrow> bool" where
  "repr s t \<longleftrightarrow> is_tree s None (root s) t \<and> distinct (nodes t) \<and> (\<forall>a\<in>set (nodes t). a < alloc s)"

definition I5 :: "('k, 't, 'v) state \<Rightarrow> bool" where
  "I5 s \<longleftrightarrow> repr s (tree_of s)"

definition I1 :: "('k::linorder, 't, 'v) state \<Rightarrow> bool" where
  "I1 s \<longleftrightarrow> bst s (tree_of s)"

definition I2 :: "('k, 't, 'v) state \<Rightarrow> bool" where
  "I2 s \<longleftrightarrow> black s (root s) \<and> no_red_red s (tree_of s) \<and> balanced s (tree_of s)"

definition I3 :: "('k::linorder, 't, 'v) state \<Rightarrow> bool" where
  "I3 s \<longleftrightarrow> mr_inv s (tree_of s)"

definition I4 :: "('k, 't, 'v) state \<Rightarrow> bool" where
  "I4 s \<longleftrightarrow> length_T s = int (length (nodes (tree_of s)))"

definition invar :: "('k::linorder, 't, 'v) state \<Rightarrow> bool" where
  "invar s \<longleftrightarrow> I1 s \<and> I2 s \<and> I3 s \<and> I4 s \<and> I5 s"

fun height_sh :: "shape \<Rightarrow> nat" where
  "height_sh Lf = 0"
| "height_sh (Nd l a r) = Suc (max (height_sh l) (height_sh r))"

definition last_opt :: "'a option \<Rightarrow> 'a list \<Rightarrow> 'a option" where
  "last_opt c xs = (if xs = [] then c else Some (last xs))"

definition first_opt :: "'a list \<Rightarrow> 'a option \<Rightarrow> 'a option" where
  "first_opt xs d = (case xs of [] \<Rightarrow> d | x # _ \<Rightarrow> Some x)"

definition succ_in :: "'a list \<Rightarrow> 'a \<Rightarrow> 'a option" where
  "succ_in xs n = first_opt (tl (dropWhile (\<lambda>x. x \<noteq> n) xs)) None"

definition pred_in :: "'a list \<Rightarrow> 'a \<Rightarrow> 'a option" where
  "pred_in xs n = last_opt None (takeWhile (\<lambda>x. x \<noteq> n) xs)"

definition least_greater ::
  "('k::linorder, 't, 'v) state \<Rightarrow> addr list \<Rightarrow> addr \<Rightarrow> addr option \<Rightarrow> bool" where
  "least_greater s xs n r =
     (case r of
        None \<Rightarrow> \<forall>m\<in>set xs. \<not> Less_iv (interval (heap s n)) (interval (heap s m))
      | Some x \<Rightarrow>
          x \<in> set xs \<and> Less_iv (interval (heap s n)) (interval (heap s x)) \<and>
          (\<forall>m\<in>set xs. Less_iv (interval (heap s n)) (interval (heap s m)) \<longrightarrow>
             \<not> Less_iv (interval (heap s m)) (interval (heap s x))))"

definition greatest_less ::
  "('k::linorder, 't, 'v) state \<Rightarrow> addr list \<Rightarrow> addr \<Rightarrow> addr option \<Rightarrow> bool" where
  "greatest_less s xs n r =
     (case r of
        None \<Rightarrow> \<forall>m\<in>set xs. \<not> Less_iv (interval (heap s m)) (interval (heap s n))
      | Some x \<Rightarrow>
          x \<in> set xs \<and> Less_iv (interval (heap s x)) (interval (heap s n)) \<and>
          (\<forall>m\<in>set xs. Less_iv (interval (heap s m)) (interval (heap s n)) \<longrightarrow>
             \<not> Less_iv (interval (heap s x)) (interval (heap s m))))"

fun faddr :: "frame \<Rightarrow> addr" where
  "faddr (FL a sib) = a"
| "faddr (FR a sib) = a"

fun fsib :: "frame \<Rightarrow> shape" where
  "fsib (FL a sib) = sib"
| "fsib (FR a sib) = sib"

fun ctx_bal :: "('k, 't, 'v) state \<Rightarrow> frame list \<Rightarrow> nat \<Rightarrow> bool" where
  "ctx_bal s [] k = True"
| "ctx_bal s (f # c) k =
     (balanced s (fsib f) \<and> bheight s (fsib f) = k \<and>
      ctx_bal s c (k + (if red (heap s (faddr f)) then 0 else 1)))"

fun ctx_rr :: "('k, 't, 'v) state \<Rightarrow> frame list \<Rightarrow> bool \<Rightarrow> bool" where
  "ctx_rr s [] b = True"
| "ctx_rr s (f # c) b =
     (no_red_red s (fsib f) \<and>
      (red (heap s (faddr f)) \<longrightarrow> b \<and> black s (rootp (fsib f))) \<and>
      ctx_rr s c (\<not> red (heap s (faddr f))))"

fun ctx_root_black :: "('k, 't, 'v) state \<Rightarrow> frame list \<Rightarrow> bool \<Rightarrow> bool" where
  "ctx_root_black s [] b = b"
| "ctx_root_black s (f # c) b = ctx_root_black s c (\<not> red (heap s (faddr f)))"

fun ctx_mr :: "('k::linorder, 't, 'v) state \<Rightarrow> frame list \<Rightarrow> 'k option \<Rightarrow> bool" where
  "ctx_mr s [] k = True"
| "ctx_mr s (FL a sib # c) k =
     (mr_inv s sib \<and>
      rank (maxRight (heap s a)) = max3 (rank (Right (interval (heap s a)))) k (mr s (rootp sib)) \<and>
      ctx_mr s c (Some (rank (maxRight (heap s a)))))"
| "ctx_mr s (FR a sib # c) k =
     (mr_inv s sib \<and>
      rank (maxRight (heap s a)) = max3 (rank (Right (interval (heap s a)))) (mr s (rootp sib)) k \<and>
      ctx_mr s c (Some (rank (maxRight (heap s a)))))"

definition rb_post :: "('k::linorder, 't, 'v) state \<Rightarrow> ('k, 't, 'v) state \<Rightarrow> shape \<Rightarrow> bool" where
  "rb_post s s' T \<longleftrightarrow>
     (\<exists>T'. is_tree s' None (root s') T' \<and> nodes T' = nodes T \<and>
        no_red_red s' T' \<and> balanced s' T' \<and> black s' (root s') \<and> mr_inv s' T') \<and>
     (\<forall>a. interval (heap s' a) = interval (heap s a) \<and> Value (heap s' a) = Value (heap s a)) \<and>
     alloc s' = alloc s \<and> length_T s' = length_T s"

lemma is_tree_rootp: "is_tree s par p t \<Longrightarrow> p = rootp t"
  by (cases t) auto

lemma rootp_nodes: "rootp t = Some a \<Longrightarrow> a \<in> set (nodes t)"
  by (cases t) auto

lemma nodes_plug: "nodes (plug c t) = cbefore c @ nodes t @ cafter c"
  by (induction c t rule: plug.induct) auto

lemma is_tree_plug:
  "is_tree s None (root s) (plug c t) \<longleftrightarrow>
     is_tree s (cpar c) (rootp t) t \<and> is_ctx s c (rootp t)"
proof (induction c t rule: plug.induct)
  case (1 t)
  show ?case using is_tree_rootp [of s None "root s" t] by auto
next
  case (2 a sib c t)
  then show ?case by (auto dest: is_tree_rootp)
next
  case (3 a sib c t)
  then show ?case by (auto dest: is_tree_rootp)
qed

lemma is_tree_cong:
  "(\<And>a. a \<in> set (nodes t) \<Longrightarrow> same_links s s' a) \<Longrightarrow> is_tree s' par p t = is_tree s par p t"
  by (induction t arbitrary: par p) (auto simp: same_links_def)

lemma is_ctx_cong:
  "(\<And>a. a \<in> set (cbefore c @ cafter c) \<Longrightarrow> same_links s s' a) \<Longrightarrow> root s' = root s \<Longrightarrow>
     is_ctx s' c p = is_ctx s c p"
proof (induction c arbitrary: p)
  case Nil
  then show ?case by simp
next
  case (Cons f c)
  show ?case
  proof (cases f)
    case (FL a sib)
    have 1: "is_ctx s' c (Some a) = is_ctx s c (Some a)"
      using Cons.prems FL by (intro Cons.IH) auto
    have 2: "is_tree s' (Some a) q sib = is_tree s (Some a) q sib" for q
      using Cons.prems FL by (intro is_tree_cong) auto
    have 3: "same_links s s' a" using Cons.prems FL by auto
    show ?thesis using 1 2 3 FL by (auto simp: same_links_def)
  next
    case (FR a sib)
    have 1: "is_ctx s' c (Some a) = is_ctx s c (Some a)"
      using Cons.prems FR by (intro Cons.IH) auto
    have 2: "is_tree s' (Some a) q sib = is_tree s (Some a) q sib" for q
      using Cons.prems FR by (intro is_tree_cong) auto
    have 3: "same_links s s' a" using Cons.prems FR by auto
    show ?thesis using 1 2 3 FR by (auto simp: same_links_def)
  qed
qed

text \<open>Replacing what hangs in the hole: the slot of the parent (or the root) is rewritten.\<close>

lemma is_ctx_slot:
  assumes "is_ctx s c p"
    and "\<And>a. a \<in> set (cbefore c @ cafter c) \<Longrightarrow> Some a \<noteq> cpar c \<Longrightarrow> same_links s s' a"
    and "distinct (cbefore c @ cafter c)"
    and "case c of
           [] \<Rightarrow> root s' = p'
         | FL a sib # c' \<Rightarrow> root s' = root s \<and> left (heap s' a) = p' \<and>
              right (heap s' a) = right (heap s a) \<and> parent (heap s' a) = parent (heap s a)
         | FR a sib # c' \<Rightarrow> root s' = root s \<and> right (heap s' a) = p' \<and>
              left (heap s' a) = left (heap s a) \<and> parent (heap s' a) = parent (heap s a)"
  shows "is_ctx s' c p'"
proof (cases c)
  case Nil
  then show ?thesis using assms by simp
next
  case (Cons f c')
  show ?thesis
  proof (cases f)
    case (FL a sib)
    have 1: "is_ctx s' c' (Some a) = is_ctx s c' (Some a)"
      using assms(2,3,4) Cons FL by (intro is_ctx_cong) auto
    have 2: "is_tree s' (Some a) q sib = is_tree s (Some a) q sib" for q
      using assms(2,3) Cons FL by (intro is_tree_cong) auto
    show ?thesis using 1 2 assms(1,4) Cons FL by auto
  next
    case (FR a sib)
    have 1: "is_ctx s' c' (Some a) = is_ctx s c' (Some a)"
      using assms(2,3,4) Cons FR by (intro is_ctx_cong) auto
    have 2: "is_tree s' (Some a) q sib = is_tree s (Some a) q sib" for q
      using assms(2,3) Cons FR by (intro is_tree_cong) auto
    show ?thesis using 1 2 assms(1,4) Cons FR by auto
  qed
qed

subsection \<open>Reading fields through updates\<close>

lemma heap_upd_same [simp]: "heap (upd a f s) a = f (heap s a)"
  by (simp add: upd_def)

lemma heap_upd_other [simp]: "b \<noteq> a \<Longrightarrow> heap (upd a f s) b = heap s b"
  by (simp add: upd_def)

lemma upd_fields [simp]:
  "root (upd a f s) = root s" "alloc (upd a f s) = alloc s" "length_T (upd a f s) = length_T s"
  by (simp_all add: upd_def)

lemma upd_id: "f (heap s a) = heap s a \<Longrightarrow> upd a f s = s"
  by (simp add: upd_def)

lemma upd_cong: "f (heap s a) = g (heap s a) \<Longrightarrow> upd a f s = upd a g s"
  by (simp add: upd_def)

lemma Value_upd_frame [simp]:
  "(\<And>x. Value (f x) = Value x) \<Longrightarrow> Value (heap (upd a f s) b) = Value (heap s b)"
  by (simp add: upd_def)

lemma Value_upd_hit [simp]:
  "Value (heap (upd a (Value_update g) s) b) = (if b = a then g (Value (heap s a)) else Value (heap s b))"
  by (simp add: upd_def)

lemma interval_upd_frame [simp]:
  "(\<And>x. interval (f x) = interval x) \<Longrightarrow> interval (heap (upd a f s) b) = interval (heap s b)"
  by (simp add: upd_def)

lemma interval_upd_hit [simp]:
  "interval (heap (upd a (interval_update g) s) b) = (if b = a then g (interval (heap s a)) else interval (heap s b))"
  by (simp add: upd_def)

lemma maxRight_upd_frame [simp]:
  "(\<And>x. maxRight (f x) = maxRight x) \<Longrightarrow> maxRight (heap (upd a f s) b) = maxRight (heap s b)"
  by (simp add: upd_def)

lemma maxRight_upd_hit [simp]:
  "maxRight (heap (upd a (maxRight_update g) s) b) = (if b = a then g (maxRight (heap s a)) else maxRight (heap s b))"
  by (simp add: upd_def)

lemma parent_upd_frame [simp]:
  "(\<And>x. parent (f x) = parent x) \<Longrightarrow> parent (heap (upd a f s) b) = parent (heap s b)"
  by (simp add: upd_def)

lemma parent_upd_hit [simp]:
  "parent (heap (upd a (parent_update g) s) b) = (if b = a then g (parent (heap s a)) else parent (heap s b))"
  by (simp add: upd_def)

lemma left_upd_frame [simp]:
  "(\<And>x. left (f x) = left x) \<Longrightarrow> left (heap (upd a f s) b) = left (heap s b)"
  by (simp add: upd_def)

lemma left_upd_hit [simp]:
  "left (heap (upd a (left_update g) s) b) = (if b = a then g (left (heap s a)) else left (heap s b))"
  by (simp add: upd_def)

lemma right_upd_frame [simp]:
  "(\<And>x. right (f x) = right x) \<Longrightarrow> right (heap (upd a f s) b) = right (heap s b)"
  by (simp add: upd_def)

lemma right_upd_hit [simp]:
  "right (heap (upd a (right_update g) s) b) = (if b = a then g (right (heap s a)) else right (heap s b))"
  by (simp add: upd_def)

lemma red_upd_frame [simp]:
  "(\<And>x. red (f x) = red x) \<Longrightarrow> red (heap (upd a f s) b) = red (heap s b)"
  by (simp add: upd_def)

lemma red_upd_hit [simp]:
  "red (heap (upd a (red_update g) s) b) = (if b = a then g (red (heap s a)) else red (heap s b))"
  by (simp add: upd_def)

lemma mrp_upd_frame [simp]:
  "(\<And>x. maxRight (f x) = maxRight x) \<Longrightarrow> mrp (upd a f s) q = mrp s q"
  by (cases q) (simp_all add: mrp_def)

lemma mrp_upd_other [simp]: "q \<noteq> Some a \<Longrightarrow> mrp (upd a f s) q = mrp s q"
  by (cases q) (auto simp: mrp_def)

lemma mrp_root [simp]: "mrp (s\<lparr>root := r\<rparr>) q = mrp s q"
  by (simp add: mrp_def)

lemma mrp_simps [simp]: "mrp s None = None" "mrp s (Some a) = Some (maxRight (heap s a))"
  by (simp_all add: mrp_def)

lemma maxRight_step:
  "(case q of
      None \<Rightarrow> s
    | Some l \<Rightarrow>
        if Less (maxRight (heap s m)) (maxRight (heap s l))
        then upd m (maxRight_update (\<lambda>_. maxRight (heap s l))) s else s) =
   upd m (maxRight_update (\<lambda>x. maxpt x (mrp s q))) s"
proof (cases q)
  case None
  then show ?thesis by (simp add: maxpt_def mrp_def upd_id)
next
  case (Some l)
  show ?thesis
  proof (cases "Less (maxRight (heap s m)) (maxRight (heap s l))")
    case True
    then show ?thesis using Some by (auto simp: maxpt_def mrp_def intro!: upd_cong)
  next
    case False
    then show ?thesis using Some by (simp add: maxpt_def mrp_def upd_id)
  qed
qed

lemma maxRight_step2:
  "(if Less (maxRight (heap s m)) (maxRight (heap s l))
    then upd m (maxRight_update (\<lambda>_. maxRight (heap s l))) s else s) =
   upd m (maxRight_update (\<lambda>x. maxpt x (Some (maxRight (heap s l))))) s"
  using maxRight_step [of s m "Some l"] by (simp add: mrp_def)

lemma maxRight_step3:
  "(case q of
      None \<Rightarrow> s
    | Some l \<Rightarrow> upd m (maxRight_update (\<lambda>x. maxpt x (Some (maxRight (heap s l))))) s) =
   upd m (maxRight_update (\<lambda>x. maxpt x (mrp s q))) s"
  by (cases q) (simp_all add: upd_id maxpt_def)

lemma Let_weak_cong: "a = b \<Longrightarrow> Let a f = Let b f"
  by simp

lemma rotateLeft_heap:
  assumes "right (heap s m) = Some n" and "left (heap s n) = y" and "parent (heap s m) = p"
    and "m \<noteq> n" and "y \<noteq> Some m" and "y \<noteq> Some n" and "p \<noteq> Some m" and "p \<noteq> Some n"
    and "p = None \<or> y \<noteq> p" and "left (heap s m) \<noteq> Some m" and "left (heap s m) \<noteq> Some n"
  shows "\<exists>s'. rotateLeft m s = Inr s' \<and>
    heap s' m = rotL_m s m n \<and> heap s' n = rotL_n s m n \<and>
    (\<forall>ya. y = Some ya \<longrightarrow> heap s' ya = (heap s ya)\<lparr>parent := Some m\<rparr>) \<and>
    (\<forall>pa. p = Some pa \<longrightarrow> heap s' pa = relink s pa m (Some n)) \<and>
    (\<forall>a. a \<noteq> m \<longrightarrow> a \<noteq> n \<longrightarrow> y \<noteq> Some a \<longrightarrow> p \<noteq> Some a \<longrightarrow> heap s' a = heap s a) \<and>
    root s' = (if p = None then Some n else root s) \<and>
    alloc s' = alloc s \<and> length_T s' = length_T s"
proof -
  have neq: "n \<noteq> m" using assms by auto
  show ?thesis
  proof (cases p)
    case None
    show ?thesis
    proof (cases y)
      case yN: None
      show ?thesis
        using assms neq None yN unfolding rotateLeft_def maxRight_step2 maxRight_step3
        by (simp add: Let_def rotL_m_def rotL_n_def cong: Let_weak_cong)
    next
      case (Some ya)
      then have "ya \<noteq> m" "ya \<noteq> n" using assms by auto
      then show ?thesis
        using assms neq None Some unfolding rotateLeft_def maxRight_step2 maxRight_step3
        by (simp add: Let_def rotL_m_def rotL_n_def cong: Let_weak_cong)
    qed
  next
    case (Some pa)
    then have pa: "pa \<noteq> m" "pa \<noteq> n" "m \<noteq> pa" "n \<noteq> pa" using assms by auto
    show ?thesis
    proof (cases y)
      case None
      show ?thesis
      proof (cases "left (heap s pa) = Some m")
        case True
        then show ?thesis
          using assms neq None Some pa unfolding rotateLeft_def maxRight_step2 maxRight_step3
          by (simp add: Let_def rotL_m_def rotL_n_def relink_def cong: Let_weak_cong)
      next
        case False
        then show ?thesis
          using assms neq None Some pa unfolding rotateLeft_def maxRight_step2 maxRight_step3
          by (simp add: Let_def rotL_m_def rotL_n_def relink_def cong: Let_weak_cong)
      qed
    next
      case ya: (Some ya)
      then have yy: "ya \<noteq> m" "ya \<noteq> n" "ya \<noteq> pa" "pa \<noteq> ya" using assms Some by auto
      show ?thesis
      proof (cases "left (heap s pa) = Some m")
        case True
        then show ?thesis
          using assms neq ya Some pa yy unfolding rotateLeft_def maxRight_step2 maxRight_step3
          by (simp add: Let_def rotL_m_def rotL_n_def relink_def cong: Let_weak_cong)
      next
        case False
        then show ?thesis
          using assms neq ya Some pa yy unfolding rotateLeft_def maxRight_step2 maxRight_step3
          by (simp add: Let_def rotL_m_def rotL_n_def relink_def cong: Let_weak_cong)
      qed
    qed
  qed
qed

lemma rootp_neq: "a \<notin> set (nodes t) \<Longrightarrow> rootp t \<noteq> Some a"
  by (cases t) auto

lemma cpar_neq: "a \<notin> set (cbefore c) \<Longrightarrow> a \<notin> set (cafter c) \<Longrightarrow> cpar c \<noteq> Some a"
  by (cases c rule: cpar.cases) auto

lemma cpar_nodes: "cpar c = Some a \<Longrightarrow> a \<in> set (cbefore c) \<or> a \<in> set (cafter c)"
  by (cases c rule: cpar.cases) auto

lemma rootp_nodes': "Some a = rootp t \<Longrightarrow> a \<in> set (nodes t)"
  by (cases t) auto

lemma cpar_nodes': "Some a = cpar c \<Longrightarrow> a \<in> set (cbefore c) \<or> a \<in> set (cafter c)"
  by (cases c rule: cpar.cases) auto

lemmas in_nodes = rootp_nodes rootp_nodes' cpar_nodes cpar_nodes'

lemma rootp_cpar_neq:
  "set (nodes t) \<inter> set (cbefore c @ cafter c) = {} \<Longrightarrow> cpar c = None \<or> rootp t \<noteq> cpar c"
  by (cases c rule: cpar.cases; cases t) auto

lemma is_tree_reparent:
  assumes "is_tree s par p t" and "distinct (nodes t)"
    and "\<And>a. a \<in> set (nodes t) \<Longrightarrow> Some a \<noteq> p \<Longrightarrow> heap s' a = heap s a"
    and "\<And>a. p = Some a \<Longrightarrow> left (heap s' a) = left (heap s a) \<and>
           right (heap s' a) = right (heap s a) \<and> parent (heap s' a) = par'"
  shows "is_tree s' par' p t"
proof (cases t)
  case Lf
  then show ?thesis using assms by simp
next
  case (Nd l a r)
  have p: "p = Some a" using assms(1) Nd by simp
  have h: "heap s' b = heap s b" if "b \<in> set (nodes l) \<or> b \<in> set (nodes r)" for b
  proof -
    have "b \<noteq> a" using that assms(2) Nd by auto
    then show ?thesis using assms(3) [of b] that Nd p by auto
  qed
  have 1: "is_tree s' q x l = is_tree s q x l" for q x
    by (rule is_tree_cong) (simp add: same_links_def h)
  have 2: "is_tree s' q x r = is_tree s q x r" for q x
    by (rule is_tree_cong) (simp add: same_links_def h)
  show ?thesis using assms(1) assms(4) [OF p] Nd 1 2 by simp
qed

lemma is_tree_frame:
  "is_tree s par p t \<Longrightarrow> (\<And>a. a \<in> set (nodes t) \<Longrightarrow> heap s' a = heap s a) \<Longrightarrow>
     is_tree s' par p t"
  using is_tree_cong [of t s s' par p] by (simp add: same_links_def)

lemma rotateLeft_shape:
  assumes T: "is_tree s None (root s) (plug c (Nd A m (Nd B n C)))"
    and D: "distinct (nodes (plug c (Nd A m (Nd B n C))))"
  shows "\<exists>s'. rotateLeft m s = Inr s' \<and>
    is_tree s' None (root s') (plug c (Nd (Nd A m B) n C)) \<and>
    heap s' m = rotL_m s m n \<and> heap s' n = rotL_n s m n \<and>
    (\<forall>a. a \<noteq> m \<longrightarrow> a \<noteq> n \<longrightarrow>
       red (heap s' a) = red (heap s a) \<and> interval (heap s' a) = interval (heap s a) \<and>
       Value (heap s' a) = Value (heap s a) \<and> maxRight (heap s' a) = maxRight (heap s a)) \<and>
    alloc s' = alloc s \<and> length_T s' = length_T s"
proof -
  from T have t: "is_tree s (cpar c) (Some m) (Nd A m (Nd B n C))" and cx: "is_ctx s c (Some m)"
    by (simp_all add: is_tree_plug)
  from t have f0: "parent (heap s m) = cpar c" "right (heap s m) = Some n"
    "parent (heap s n) = Some m"
    and tA0: "is_tree s (Some m) (left (heap s m)) A"
    and tB0: "is_tree s (Some n) (left (heap s n)) B"
    and tC0: "is_tree s (Some n) (right (heap s n)) C"
    by simp_all
  have f: "parent (heap s m) = cpar c" "left (heap s m) = rootp A"
    "right (heap s m) = Some n" "left (heap s n) = rootp B" "right (heap s n) = rootp C"
    "parent (heap s n) = Some m"
    using f0 is_tree_rootp [OF tA0] is_tree_rootp [OF tB0] is_tree_rootp [OF tC0] by simp_all
  have tA: "is_tree s (Some m) (rootp A) A" and tB: "is_tree s (Some n) (rootp B) B"
    and tC: "is_tree s (Some n) (rootp C) C"
    using tA0 tB0 tC0 f by simp_all
  from D have d: "distinct (cbefore c @ cafter c)" "distinct (nodes A)" "distinct (nodes B)"
    "distinct (nodes C)" "m \<noteq> n"
    "m \<notin> set (nodes A)" "m \<notin> set (nodes B)" "m \<notin> set (nodes C)"
    "m \<notin> set (cbefore c)" "m \<notin> set (cafter c)"
    "n \<notin> set (nodes A)" "n \<notin> set (nodes B)" "n \<notin> set (nodes C)"
    "n \<notin> set (cbefore c)" "n \<notin> set (cafter c)"
    "set (nodes A) \<inter> set (cbefore c @ cafter c) = {}"
    "set (nodes B) \<inter> set (cbefore c @ cafter c) = {}"
    "set (nodes C) \<inter> set (cbefore c @ cafter c) = {}"
    "set (nodes A) \<inter> set (nodes B) = {}" "set (nodes A) \<inter> set (nodes C) = {}"
    "set (nodes B) \<inter> set (nodes C) = {}"
    by (auto simp: nodes_plug)
  have pre: "rootp B \<noteq> Some m" "rootp B \<noteq> Some n" "cpar c \<noteq> Some m" "cpar c \<noteq> Some n"
    "cpar c = None \<or> rootp B \<noteq> cpar c" "rootp A \<noteq> Some m" "rootp A \<noteq> Some n"
    using d rootp_neq [of m B] rootp_neq [of n B] cpar_neq [of m c] cpar_neq [of n c]
      rootp_cpar_neq [of B c] rootp_neq [of m A] rootp_neq [of n A]
    by simp_all
  from rotateLeft_heap [OF f(3) f(4) f(1) d(5) pre(1,2,3,4,5) pre(6,7) [folded f(2)]]
  obtain s' where s': "rotateLeft m s = Inr s'"
    and hm: "heap s' m = rotL_m s m n" and hn: "heap s' n = rotL_n s m n"
    and hy: "\<And>ya. rootp B = Some ya \<Longrightarrow> heap s' ya = (heap s ya)\<lparr>parent := Some m\<rparr>"
    and hp: "\<And>pa. cpar c = Some pa \<Longrightarrow> heap s' pa = relink s pa m (Some n)"
    and ho: "\<And>a. a \<noteq> m \<Longrightarrow> a \<noteq> n \<Longrightarrow> rootp B \<noteq> Some a \<Longrightarrow> cpar c \<noteq> Some a \<Longrightarrow>
               heap s' a = heap s a"
    and rt: "root s' = (if cpar c = None then Some n else root s)"
    and al: "alloc s' = alloc s" "length_T s' = length_T s"
    by blast
  have A': "is_tree s' (Some m) (rootp A) A"
    using d by (intro is_tree_frame [OF tA] ho) (auto dest: in_nodes)
  have C': "is_tree s' (Some n) (rootp C) C"
    using d by (intro is_tree_frame [OF tC] ho) (auto dest: in_nodes)
  have B': "is_tree s' (Some m) (rootp B) B"
  proof (rule is_tree_reparent [OF tB d(3)])
    fix a assume "a \<in> set (nodes B)" "Some a \<noteq> rootp B"
    then show "heap s' a = heap s a" using d by (intro ho) (auto dest: in_nodes)
  next
    fix a assume "rootp B = Some a"
    then show "left (heap s' a) = left (heap s a) \<and> right (heap s' a) = right (heap s a) \<and>
      parent (heap s' a) = Some m" using hy by simp
  qed
  have t': "is_tree s' (cpar c) (Some n) (Nd (Nd A m B) n C)"
    using A' B' C' f by (simp add: hm hn rotL_m_def rotL_n_def)
  have cx': "is_ctx s' c (Some n)"
  proof (rule is_ctx_slot [OF cx _ d(1)])
    fix a assume "a \<in> set (cbefore c @ cafter c)" "Some a \<noteq> cpar c"
    then have "heap s' a = heap s a" using d by (intro ho) (auto dest: in_nodes)
    then show "same_links s s' a" by (simp add: same_links_def)
  next
    show "case c of
        [] \<Rightarrow> root s' = Some n
      | FL a sib # c' \<Rightarrow> root s' = root s \<and> left (heap s' a) = Some n \<and>
          right (heap s' a) = right (heap s a) \<and> parent (heap s' a) = parent (heap s a)
      | FR a sib # c' \<Rightarrow> root s' = root s \<and> right (heap s' a) = Some n \<and>
          left (heap s' a) = left (heap s a) \<and> parent (heap s' a) = parent (heap s a)"
    proof (cases c rule: cpar.cases)
      case 1
      then show ?thesis using rt by simp
    next
      case (2 a sib c')
      then show ?thesis using rt hp [of a] cx by (simp add: relink_def)
    next
      case (3 a sib c')
      then have "is_tree s (Some a) (left (heap s a)) sib" "m \<notin> set (nodes sib)"
        using cx d by auto
      then have "left (heap s a) \<noteq> Some m"
        using is_tree_rootp [of s "Some a" "left (heap s a)" sib] rootp_neq [of m sib] by simp
      then show ?thesis using 3 rt hp [of a] cx by (simp add: relink_def)
    qed
  qed
  have rest: "red (heap s' a) = red (heap s a) \<and> interval (heap s' a) = interval (heap s a) \<and>
       Value (heap s' a) = Value (heap s a) \<and> maxRight (heap s' a) = maxRight (heap s a)"
    if "a \<noteq> m" "a \<noteq> n" for a
  proof (cases "rootp B = Some a")
    case True
    then show ?thesis using hy [of a] by simp
  next
    case False
    show ?thesis
    proof (cases "cpar c = Some a")
      case True
      then show ?thesis using hp [of a] by (simp add: relink_def)
    next
      case F2: False
      then show ?thesis using ho [OF that False F2] by simp
    qed
  qed
  show ?thesis
    using s' t' cx' hm hn rest al by (auto simp: is_tree_plug)
qed

lemma rotateRight_heap:
  assumes "left (heap s n) = Some m" and "right (heap s m) = y" and "parent (heap s n) = p"
    and "m \<noteq> n" and "y \<noteq> Some m" and "y \<noteq> Some n" and "p \<noteq> Some m" and "p \<noteq> Some n"
    and "p = None \<or> y \<noteq> p" and "right (heap s n) \<noteq> Some m" and "right (heap s n) \<noteq> Some n"
  shows "\<exists>s'. rotateRight n s = Inr s' \<and>
    heap s' n = rotR_n s n m \<and> heap s' m = rotR_m s n m \<and>
    (\<forall>ya. y = Some ya \<longrightarrow> heap s' ya = (heap s ya)\<lparr>parent := Some n\<rparr>) \<and>
    (\<forall>pa. p = Some pa \<longrightarrow> heap s' pa = relink s pa n (Some m)) \<and>
    (\<forall>a. a \<noteq> m \<longrightarrow> a \<noteq> n \<longrightarrow> y \<noteq> Some a \<longrightarrow> p \<noteq> Some a \<longrightarrow> heap s' a = heap s a) \<and>
    root s' = (if p = None then Some m else root s) \<and>
    alloc s' = alloc s \<and> length_T s' = length_T s"
proof -
  have neq: "n \<noteq> m" using assms by auto
  note defs = Let_def rotR_m_def rotR_n_def relink_def
  show ?thesis
  proof (cases p)
    case None
    show ?thesis
    proof (cases y)
      case yN: None
      show ?thesis
        using assms neq None yN unfolding rotateRight_def maxRight_step2 maxRight_step3
        by (simp add: defs cong: Let_weak_cong)
    next
      case (Some ya)
      then have "ya \<noteq> m" "ya \<noteq> n" using assms by auto
      then show ?thesis
        using assms neq None Some unfolding rotateRight_def maxRight_step2 maxRight_step3
        by (simp add: defs cong: Let_weak_cong)
    qed
  next
    case (Some pa)
    then have pa: "pa \<noteq> m" "pa \<noteq> n" "m \<noteq> pa" "n \<noteq> pa" using assms by auto
    show ?thesis
    proof (cases y)
      case None
      show ?thesis
      proof (cases "left (heap s pa) = Some n")
        case True
        then show ?thesis
          using assms neq None Some pa unfolding rotateRight_def maxRight_step2 maxRight_step3
          by (simp add: defs cong: Let_weak_cong)
      next
        case False
        then show ?thesis
          using assms neq None Some pa unfolding rotateRight_def maxRight_step2 maxRight_step3
          by (simp add: defs cong: Let_weak_cong)
      qed
    next
      case ya: (Some ya)
      then have yy: "ya \<noteq> m" "ya \<noteq> n" "ya \<noteq> pa" "pa \<noteq> ya" using assms Some by auto
      show ?thesis
      proof (cases "left (heap s pa) = Some n")
        case True
        then show ?thesis
          using assms neq ya Some pa yy unfolding rotateRight_def maxRight_step2 maxRight_step3
          by (simp add: defs cong: Let_weak_cong)
      next
        case False
        then show ?thesis
          using assms neq ya Some pa yy unfolding rotateRight_def maxRight_step2 maxRight_step3
          by (simp add: defs cong: Let_weak_cong)
      qed
    qed
  qed
qed

lemma rotateRight_shape:
  assumes T: "is_tree s None (root s) (plug c (Nd (Nd A m B) n C))"
    and D: "distinct (nodes (plug c (Nd (Nd A m B) n C)))"
  shows "\<exists>s'. rotateRight n s = Inr s' \<and>
    is_tree s' None (root s') (plug c (Nd A m (Nd B n C))) \<and>
    heap s' n = rotR_n s n m \<and> heap s' m = rotR_m s n m \<and>
    (\<forall>a. a \<noteq> m \<longrightarrow> a \<noteq> n \<longrightarrow>
       red (heap s' a) = red (heap s a) \<and> interval (heap s' a) = interval (heap s a) \<and>
       Value (heap s' a) = Value (heap s a) \<and> maxRight (heap s' a) = maxRight (heap s a)) \<and>
    alloc s' = alloc s \<and> length_T s' = length_T s"
proof -
  from T have t: "is_tree s (cpar c) (Some n) (Nd (Nd A m B) n C)" and cx: "is_ctx s c (Some n)"
    by (simp_all add: is_tree_plug)
  from t have f0: "parent (heap s n) = cpar c" "left (heap s n) = Some m"
    "parent (heap s m) = Some n"
    and tA0: "is_tree s (Some m) (left (heap s m)) A"
    and tB0: "is_tree s (Some m) (right (heap s m)) B"
    and tC0: "is_tree s (Some n) (right (heap s n)) C"
    by simp_all
  have f: "parent (heap s n) = cpar c" "left (heap s m) = rootp A"
    "left (heap s n) = Some m" "right (heap s m) = rootp B" "right (heap s n) = rootp C"
    "parent (heap s m) = Some n"
    using f0 is_tree_rootp [OF tA0] is_tree_rootp [OF tB0] is_tree_rootp [OF tC0] by simp_all
  have tA: "is_tree s (Some m) (rootp A) A" and tB: "is_tree s (Some m) (rootp B) B"
    and tC: "is_tree s (Some n) (rootp C) C"
    using tA0 tB0 tC0 f by simp_all
  from D have d: "distinct (cbefore c @ cafter c)" "distinct (nodes A)" "distinct (nodes B)"
    "distinct (nodes C)" "m \<noteq> n"
    "m \<notin> set (nodes A)" "m \<notin> set (nodes B)" "m \<notin> set (nodes C)"
    "m \<notin> set (cbefore c)" "m \<notin> set (cafter c)"
    "n \<notin> set (nodes A)" "n \<notin> set (nodes B)" "n \<notin> set (nodes C)"
    "n \<notin> set (cbefore c)" "n \<notin> set (cafter c)"
    "set (nodes A) \<inter> set (cbefore c @ cafter c) = {}"
    "set (nodes B) \<inter> set (cbefore c @ cafter c) = {}"
    "set (nodes C) \<inter> set (cbefore c @ cafter c) = {}"
    "set (nodes A) \<inter> set (nodes B) = {}" "set (nodes A) \<inter> set (nodes C) = {}"
    "set (nodes B) \<inter> set (nodes C) = {}"
    by (auto simp: nodes_plug)
  have pre: "rootp B \<noteq> Some m" "rootp B \<noteq> Some n" "cpar c \<noteq> Some m" "cpar c \<noteq> Some n"
    "cpar c = None \<or> rootp B \<noteq> cpar c" "rootp C \<noteq> Some m" "rootp C \<noteq> Some n"
    using d rootp_neq [of m B] rootp_neq [of n B] cpar_neq [of m c] cpar_neq [of n c]
      rootp_cpar_neq [of B c] rootp_neq [of m C] rootp_neq [of n C]
    by simp_all
  from rotateRight_heap [OF f(3) f(4) f(1) d(5) pre(1,2,3,4,5) pre(6,7) [folded f(5)]]
  obtain s' where s': "rotateRight n s = Inr s'"
    and hn: "heap s' n = rotR_n s n m" and hm: "heap s' m = rotR_m s n m"
    and hy: "\<And>ya. rootp B = Some ya \<Longrightarrow> heap s' ya = (heap s ya)\<lparr>parent := Some n\<rparr>"
    and hp: "\<And>pa. cpar c = Some pa \<Longrightarrow> heap s' pa = relink s pa n (Some m)"
    and ho: "\<And>a. a \<noteq> m \<Longrightarrow> a \<noteq> n \<Longrightarrow> rootp B \<noteq> Some a \<Longrightarrow> cpar c \<noteq> Some a \<Longrightarrow>
               heap s' a = heap s a"
    and rt: "root s' = (if cpar c = None then Some m else root s)"
    and al: "alloc s' = alloc s" "length_T s' = length_T s"
    by blast
  have A': "is_tree s' (Some m) (rootp A) A"
    using d by (intro is_tree_frame [OF tA] ho) (auto dest: in_nodes)
  have C': "is_tree s' (Some n) (rootp C) C"
    using d by (intro is_tree_frame [OF tC] ho) (auto dest: in_nodes)
  have B': "is_tree s' (Some n) (rootp B) B"
  proof (rule is_tree_reparent [OF tB d(3)])
    fix a assume "a \<in> set (nodes B)" "Some a \<noteq> rootp B"
    then show "heap s' a = heap s a" using d by (intro ho) (auto dest: in_nodes)
  next
    fix a assume "rootp B = Some a"
    then show "left (heap s' a) = left (heap s a) \<and> right (heap s' a) = right (heap s a) \<and>
      parent (heap s' a) = Some n" using hy by simp
  qed
  have t': "is_tree s' (cpar c) (Some m) (Nd A m (Nd B n C))"
    using A' B' C' f by (simp add: hm hn rotR_m_def rotR_n_def)
  have cx': "is_ctx s' c (Some m)"
  proof (rule is_ctx_slot [OF cx _ d(1)])
    fix a assume "a \<in> set (cbefore c @ cafter c)" "Some a \<noteq> cpar c"
    then have "heap s' a = heap s a" using d by (intro ho) (auto dest: in_nodes)
    then show "same_links s s' a" by (simp add: same_links_def)
  next
    show "case c of
        [] \<Rightarrow> root s' = Some m
      | FL a sib # c' \<Rightarrow> root s' = root s \<and> left (heap s' a) = Some m \<and>
          right (heap s' a) = right (heap s a) \<and> parent (heap s' a) = parent (heap s a)
      | FR a sib # c' \<Rightarrow> root s' = root s \<and> right (heap s' a) = Some m \<and>
          left (heap s' a) = left (heap s a) \<and> parent (heap s' a) = parent (heap s a)"
    proof (cases c rule: cpar.cases)
      case 1
      then show ?thesis using rt by simp
    next
      case (2 a sib c')
      then show ?thesis using rt hp [of a] cx by (simp add: relink_def)
    next
      case (3 a sib c')
      then have "is_tree s (Some a) (left (heap s a)) sib" "n \<notin> set (nodes sib)"
        using cx d by auto
      then have "left (heap s a) \<noteq> Some n"
        using is_tree_rootp [of s "Some a" "left (heap s a)" sib] rootp_neq [of n sib] by simp
      then show ?thesis using 3 rt hp [of a] cx by (simp add: relink_def)
    qed
  qed
  have rest: "red (heap s' a) = red (heap s a) \<and> interval (heap s' a) = interval (heap s a) \<and>
       Value (heap s' a) = Value (heap s a) \<and> maxRight (heap s' a) = maxRight (heap s a)"
    if "a \<noteq> m" "a \<noteq> n" for a
  proof (cases "rootp B = Some a")
    case True
    then show ?thesis using hy [of a] by simp
  next
    case False
    show ?thesis
    proof (cases "cpar c = Some a")
      case True
      then show ?thesis using hp [of a] by (simp add: relink_def)
    next
      case F2: False
      then show ?thesis using ho [OF that False F2] by simp
    qed
  qed
  show ?thesis
    using s' t' cx' hm hn rest al by (auto simp: is_tree_plug)
qed

lemma height_le_length: "height_sh t \<le> length (nodes t)"
  by (induction t) auto

lemma shape_of_is_tree: "is_tree s par p t \<Longrightarrow> height_sh t \<le> k \<Longrightarrow> shape_of k s p = t"
proof (induction t arbitrary: par p k)
  case Lf
  then show ?case by (cases k) auto
next
  case (Nd l a r)
  then obtain k' where k: "k = Suc k'" by (cases k) auto
  with Nd show ?case by auto
qed

lemma distinct_bounded_length:
  assumes "distinct xs" and "\<forall>a\<in>set xs. a < (n::nat)"
  shows "length xs \<le> n"
proof -
  have "card (set xs) \<le> card {..<n}" using assms(2) by (intro card_mono) auto
  then show ?thesis using assms(1) by (simp add: distinct_card)
qed

lemma repr_tree_of: "repr s t \<Longrightarrow> tree_of s = t"
  unfolding repr_def tree_of_def
  using shape_of_is_tree [of s None "root s" t "alloc s"] height_le_length [of t]
    distinct_bounded_length [of "nodes t" "alloc s"]
  by auto

lemma I5_repr: "I5 s \<longleftrightarrow> (\<exists>t. repr s t)"
  using repr_tree_of by (auto simp: I5_def)

subsection \<open>The interval order\<close>

lemma Less_iv_trans: "Less_iv a b \<Longrightarrow> Less_iv b c \<Longrightarrow> Less_iv a c"
  by (auto simp: Less_iv_def Less_def split: if_splits)

lemma Less_iv_irrefl: "\<not> Less_iv a a"
  by (auto simp: Less_iv_def Less_def)

lemma Equal_iv_iff: "Equal_iv a b \<longleftrightarrow> \<not> Less_iv a b \<and> \<not> Less_iv b a"
  by (auto simp: Equal_iv_def equal_pt_def Less_iv_def Less_def)

lemma Less_iv_Equal_trans: "Less_iv a b \<Longrightarrow> Equal_iv b c \<Longrightarrow> Less_iv a c"
  by (auto simp: Equal_iv_def equal_pt_def Less_iv_def Less_def split: if_splits)

lemma Equal_Less_iv_trans: "Equal_iv a b \<Longrightarrow> Less_iv b c \<Longrightarrow> Less_iv a c"
  by (auto simp: Equal_iv_def equal_pt_def Less_iv_def Less_def split: if_splits)

lemma not_Less_iv_trans: "\<not> Less_iv a b \<Longrightarrow> \<not> Less_iv b c \<Longrightarrow> \<not> Less_iv a c"
  by (auto simp: Less_iv_def Less_def split: if_splits)

subsection \<open>Neighbour queries on a search tree\<close>

lemma last_opt_simps [simp]:
  "last_opt c [] = c" "last_opt c (xs @ [x]) = Some x"
  "last_opt c (xs @ x # ys) = last_opt (Some x) ys"
  by (auto simp: last_opt_def)

lemma bst_Nd:
  "bst s (Nd l a r) \<longleftrightarrow>
     bst s l \<and> bst s r \<and>
     (\<forall>x\<in>set (nodes l). Less_iv (interval (heap s x)) (interval (heap s a))) \<and>
     (\<forall>y\<in>set (nodes r). Less_iv (interval (heap s a)) (interval (heap s y))) \<and>
     (\<forall>x\<in>set (nodes l). \<forall>y\<in>set (nodes r). Less_iv (interval (heap s x)) (interval (heap s y)))"
  by (auto simp: bst_def sorted_wrt_append)

lemma bst_Nd_D:
  assumes "bst s (Nd l a r)"
  shows "bst s l" "bst s r"
    "\<And>x. x \<in> set (nodes l) \<Longrightarrow> Less_iv (interval (heap s x)) (interval (heap s a))"
    "\<And>y. y \<in> set (nodes r) \<Longrightarrow> Less_iv (interval (heap s a)) (interval (heap s y))"
  using assms by (auto simp: bst_Nd)

lemma GetLess_loop_bst:
  "is_tree s par p t \<Longrightarrow> bst s t \<Longrightarrow>
     GetLess_loop s iv cand p =
       Some (last_opt cand (filter (\<lambda>a. Less_iv (interval (heap s a)) iv) (nodes t)))"
proof (induction t arbitrary: par p cand)
  case Lf
  then show ?case by (subst GetLess_loop.simps) simp
next
  case (Nd l a r)
  note b = bst_Nd_D [OF Nd.prems(2)]
  from Nd.prems have p: "p = Some a" and tl: "is_tree s (Some a) (left (heap s a)) l"
    and tr: "is_tree s (Some a) (right (heap s a)) r" by auto
  show ?case
  proof (cases "Less_iv (interval (heap s a)) iv")
    case True
    have "filter (\<lambda>a. Less_iv (interval (heap s a)) iv) (nodes l) = nodes l"
      using b(3) True by (auto simp: filter_id_conv intro: Less_iv_trans)
    then show ?thesis
      using True p Nd.IH(2) [OF tr b(2), of "Some a"]
      by (subst GetLess_loop.simps) simp
  next
    case False
    have "filter (\<lambda>a. Less_iv (interval (heap s a)) iv) (nodes r) = []"
      using b(4) False by (auto simp: filter_empty_conv dest: Less_iv_trans)
    then show ?thesis
      using False p Nd.IH(1) [OF tl b(1), of cand]
      by (subst GetLess_loop.simps) simp
  qed
qed

lemma GetLessEqual_loop_bst:
  "is_tree s par p t \<Longrightarrow> bst s t \<Longrightarrow>
     GetLessEqual_loop s iv cand p =
       Some (last_opt cand (filter (\<lambda>a. \<not> Less_iv iv (interval (heap s a))) (nodes t)))"
proof (induction t arbitrary: par p cand)
  case Lf
  then show ?case by (subst GetLessEqual_loop.simps) simp
next
  case (Nd l a r)
  note b = bst_Nd_D [OF Nd.prems(2)]
  from Nd.prems have p: "p = Some a" and tl: "is_tree s (Some a) (left (heap s a)) l"
    and tr: "is_tree s (Some a) (right (heap s a)) r" by auto
  show ?case
  proof (cases "Less_iv iv (interval (heap s a))")
    case True
    have "filter (\<lambda>a. \<not> Less_iv iv (interval (heap s a))) (nodes r) = []"
      using b(4) True by (auto simp: filter_empty_conv intro: Less_iv_trans)
    then show ?thesis
      using True p Nd.IH(1) [OF tl b(1), of cand]
      by (subst GetLessEqual_loop.simps) simp
  next
    case False
    have "filter (\<lambda>a. \<not> Less_iv iv (interval (heap s a))) (nodes l) = nodes l"
      using b(3) False by (auto simp: filter_id_conv dest: Less_iv_trans)
    then show ?thesis
      using False p Nd.IH(2) [OF tr b(2), of "Some a"]
      by (subst GetLessEqual_loop.simps) simp
  qed
qed

lemma sorted_wrt_last:
  assumes "sorted_wrt R xs" and "x \<in> set xs"
  shows "x = last xs \<or> R x (last xs)"
proof -
  from assms(2) have ne: "xs \<noteq> []" by auto
  then have "xs = butlast xs @ [last xs]" by simp
  then have "sorted_wrt R (butlast xs @ [last xs])" "x \<in> set (butlast xs @ [last xs])"
    using assms by simp_all
  then show ?thesis by (auto simp: sorted_wrt_append)
qed

lemma last_opt_filter_agree:
  fixes f :: "'a \<Rightarrow> ('k::linorder, 't) Interval"
  assumes "sorted_wrt (\<lambda>a b. Less_iv (f a) (f b)) xs"
  shows "last_opt None (filter (\<lambda>a. Less_iv (f a) iv) xs) =
         last_opt None (filter (\<lambda>a. \<not> Less_iv iv (f a)) xs) \<longleftrightarrow>
         (\<forall>a\<in>set xs. \<not> Equal_iv (f a) iv)"
proof
  assume "\<forall>a\<in>set xs. \<not> Equal_iv (f a) iv"
  then have "filter (\<lambda>a. Less_iv (f a) iv) xs = filter (\<lambda>a. \<not> Less_iv iv (f a)) xs"
    by (intro filter_cong) (auto simp: Equal_iv_iff dest: Less_iv_trans simp: Less_iv_irrefl)
  then show "last_opt None (filter (\<lambda>a. Less_iv (f a) iv) xs) =
         last_opt None (filter (\<lambda>a. \<not> Less_iv iv (f a)) xs)" by simp
next
  assume eq: "last_opt None (filter (\<lambda>a. Less_iv (f a) iv) xs) =
         last_opt None (filter (\<lambda>a. \<not> Less_iv iv (f a)) xs)"
  show "\<forall>a\<in>set xs. \<not> Equal_iv (f a) iv"
  proof (intro ballI notI)
    fix e assume e: "e \<in> set xs" "Equal_iv (f e) iv"
    let ?P2 = "\<lambda>a. \<not> Less_iv iv (f a)" and ?P1 = "\<lambda>a. Less_iv (f a) iv"
    have e2: "e \<in> set (filter ?P2 xs)" using e by (simp add: Equal_iv_iff)
    then have ne: "filter ?P2 xs \<noteq> []" by (metis empty_iff empty_set)
    define z where "z = last (filter ?P2 xs)"
    have "last_opt None (filter ?P1 xs) = Some z" using eq ne by (simp add: last_opt_def z_def)
    then have "filter ?P1 xs \<noteq> []" "last (filter ?P1 xs) = z"
      by (auto simp: last_opt_def split: if_splits)
    then have "z \<in> set (filter ?P1 xs)" using last_in_set by metis
    then have z1: "Less_iv (f z) iv" by simp
    have "sorted_wrt (\<lambda>a b. Less_iv (f a) (f b)) (filter ?P2 xs)"
      using assms by (rule sorted_wrt_filter)
    from sorted_wrt_last [OF this e2] have "e = z \<or> Less_iv (f e) (f z)" by (simp add: z_def)
    then show False
    proof
      assume "e = z" then show False using z1 e by (simp add: Equal_iv_iff)
    next
      assume "Less_iv (f e) (f z)"
      then have "Less_iv (f e) iv" using z1 by (rule Less_iv_trans)
      then show False using e by (simp add: Equal_iv_iff)
    qed
  qed
qed

lemma invar_repr: "invar s \<Longrightarrow> repr s (tree_of s)"
  by (simp add: invar_def I5_def)

text \<open>
  C7. In a tree that satisfies the structural invariants, for a non-empty interval \<open>i\<close>,
  \<open>GetLess\<close> and \<open>GetLessEqual\<close> both return, and they return the same node (or both nil)
  exactly when no node of the tree has a key equal to \<open>i\<close>.
\<close>

theorem GetLess_GetLessEqual_agree:
  assumes "invar s" and "\<not> empty_iv i"
  shows "(\<exists>x y. GetLess s i = Some (Inr x) \<and> GetLessEqual s i = Some (Inr y)) \<and>
    (GetLess s i = GetLessEqual s i \<longleftrightarrow>
       (\<forall>a\<in>set (nodes (tree_of s)). \<not> Equal_iv (interval (heap s a)) i))"
proof -
  let ?t = "tree_of s"
  have t: "is_tree s None (root s) ?t" and b: "bst s ?t"
    using assms(1) by (simp_all add: invar_def I5_def I1_def repr_def)
  have srt: "sorted_wrt (\<lambda>a b. Less_iv (interval (heap s a)) (interval (heap s b))) (nodes ?t)"
    using b by (simp add: bst_def sorted_wrt_map)
  show ?thesis
    using assms(2) GetLess_loop_bst [OF t b, of i None] GetLessEqual_loop_bst [OF t b, of i None]
      last_opt_filter_agree [OF srt, of i]
    by (simp add: GetLess_def GetLessEqual_def)
qed

lemma first_opt_simps [simp]:
  "first_opt [] d = d" "first_opt (x # xs) d = Some x"
  "first_opt (xs @ ys) d = first_opt xs (first_opt ys d)"
  by (simp_all add: first_opt_def split: list.splits)

lemma last_opt_Cons [simp]: "last_opt c (x # xs) = last_opt (Some x) xs"
  by (simp add: last_opt_def)

lemma last_opt_append [simp]: "last_opt c (xs @ ys) = last_opt (last_opt c xs) ys"
  by (induction xs arbitrary: c) simp_all

lemma succ_in_split:
  assumes "n \<notin> set xs"
  shows "succ_in (xs @ n # ys) n = first_opt ys None"
proof -
  have "dropWhile (\<lambda>x. x \<noteq> n) (xs @ n # ys) = n # ys"
    using assms by (subst dropWhile_append2) auto
  then show ?thesis by (simp add: succ_in_def)
qed

lemma pred_in_split:
  assumes "n \<notin> set xs"
  shows "pred_in (xs @ n # ys) n = last_opt None xs"
proof -
  have "takeWhile (\<lambda>x. x \<noteq> n) (xs @ n # ys) = xs"
    using assms by (subst takeWhile_append2) auto
  then show ?thesis by (simp add: pred_in_def)
qed

lemma in_nodes_plug: "a \<in> set (nodes t) \<Longrightarrow> \<exists>c l r. t = plug c (Nd l a r)"
proof (induction t)
  case Lf
  then show ?case by simp
next
  case (Nd t1 b t2)
  consider "a = b" | "a \<in> set (nodes t1)" | "a \<in> set (nodes t2)" using Nd.prems by auto
  then show ?case
  proof cases
    case 1
    then show ?thesis by (metis plug.simps(1))
  next
    case 2
    from Nd.IH(1) [OF this] obtain c l r where "t1 = plug c (Nd l a r)" by blast
    then have "Nd t1 b t2 = plug (c @ [FL b t2]) (Nd l a r)"
      by (induction c "Nd l a r" arbitrary: l a r rule: plug.induct) auto
    then show ?thesis by blast
  next
    case 3
    from Nd.IH(2) [OF this] obtain c l r where "t2 = plug c (Nd l a r)" by blast
    then have "Nd t1 b t2 = plug (c @ [FR b t1]) (Nd l a r)"
      by (induction c "Nd l a r" arbitrary: l a r rule: plug.induct) auto
    then show ?thesis by blast
  qed
qed

lemma Next_down_tree:
  "is_tree s par (Some a) t \<Longrightarrow> Next_down s a = Some (first_opt (nodes t) d)"
proof (induction t arbitrary: par a)
  case Lf
  then show ?case by simp
next
  case (Nd l b r)
  then have ab: "a = b" and tl: "is_tree s (Some a) (left (heap s a)) l" by auto
  show ?case
  proof (cases l)
    case Lf
    then show ?thesis using tl ab by (subst Next_down.simps) simp
  next
    case (Nd l1 x l2)
    then have lx: "left (heap s a) = Some x" using tl by simp
    from Nd.IH(1) [of "Some a" x] tl lx Nd ab show ?thesis
      by (subst Next_down.simps) simp
  qed
qed

lemma Previous_down_tree:
  "is_tree s par (Some a) t \<Longrightarrow> Previous_down s a = Some (last_opt d (nodes t))"
proof (induction t arbitrary: par a)
  case Lf
  then show ?case by simp
next
  case (Nd l b r)
  then have ab: "a = b" and tr: "is_tree s (Some a) (right (heap s a)) r" by auto
  show ?case
  proof (cases r)
    case Lf
    then show ?thesis using tr ab by (subst Previous_down.simps) simp
  next
    case (Nd r1 x r2)
    then have rx: "right (heap s a) = Some x" using tr by simp
    from Nd.IH(2) [of "Some a" x] tr rx Nd ab show ?thesis
      by (subst Previous_down.simps) simp
  qed
qed

lemma Next_up_ctx:
  "is_ctx s c (Some n) \<Longrightarrow> parent (heap s n) = cpar c \<Longrightarrow>
   n \<notin> set (cbefore c @ cafter c) \<Longrightarrow> distinct (cbefore c @ cafter c) \<Longrightarrow>
     Next_up s n = Some (first_opt (cafter c) None)"
proof (induction c arbitrary: n)
  case Nil
  then show ?case by (subst Next_up.simps) simp
next
  case (Cons f c)
  show ?case
  proof (cases f)
    case (FL a sib)
    then show ?thesis using Cons.prems by (subst Next_up.simps) simp
  next
    case (FR a sib)
    with Cons.prems have cx: "is_ctx s c (Some a)" and pa: "parent (heap s a) = cpar c"
      and ts: "is_tree s (Some a) (left (heap s a)) sib" and ns: "n \<notin> set (nodes sib)"
      and pn: "parent (heap s n) = Some a"
      by auto
    have "left (heap s a) \<noteq> Some n"
      using is_tree_rootp [OF ts] rootp_neq [OF ns] by simp
    moreover have "Next_up s a = Some (first_opt (cafter c) None)"
      using Cons.prems FR by (intro Cons.IH [OF cx pa]) auto
    ultimately show ?thesis using pn FR by (subst Next_up.simps) simp
  qed
qed

lemma Previous_up_ctx:
  "is_ctx s c (Some n) \<Longrightarrow> parent (heap s n) = cpar c \<Longrightarrow>
   n \<notin> set (cbefore c @ cafter c) \<Longrightarrow> distinct (cbefore c @ cafter c) \<Longrightarrow>
     Previous_up s n = Some (last_opt None (cbefore c))"
proof (induction c arbitrary: n)
  case Nil
  then show ?case by (subst Previous_up.simps) simp
next
  case (Cons f c)
  show ?case
  proof (cases f)
    case (FR a sib)
    then show ?thesis using Cons.prems by (subst Previous_up.simps) simp
  next
    case (FL a sib)
    with Cons.prems have cx: "is_ctx s c (Some a)" and pa: "parent (heap s a) = cpar c"
      and ts: "is_tree s (Some a) (right (heap s a)) sib" and ns: "n \<notin> set (nodes sib)"
      and pn: "parent (heap s n) = Some a"
      by auto
    have "right (heap s a) \<noteq> Some n"
      using is_tree_rootp [OF ts] rootp_neq [OF ns] by simp
    moreover have "Previous_up s a = Some (last_opt None (cbefore c))"
      using Cons.prems FL by (intro Cons.IH [OF cx pa]) auto
    ultimately show ?thesis using pn FL by (subst Previous_up.simps) simp
  qed
qed

lemma Next_inorder:
  assumes "is_tree s None (root s) t" and "distinct (nodes t)" and "n \<in> set (nodes t)"
  shows "Next s n = Some (succ_in (nodes t) n)"
proof -
  from in_nodes_plug [OF assms(3)] obtain c l r where t: "t = plug c (Nd l n r)" by blast
  from assms(1) have tn: "is_tree s (cpar c) (Some n) (Nd l n r)" and cx: "is_ctx s c (Some n)"
    by (simp_all add: t is_tree_plug)
  from assms(2) have d: "n \<notin> set (cbefore c @ nodes l)" "n \<notin> set (cbefore c @ cafter c)"
    "distinct (cbefore c @ cafter c)"
    by (auto simp: t nodes_plug)
  have su: "succ_in (nodes t) n = first_opt (nodes r @ cafter c) None"
    using succ_in_split [OF d(1), of "nodes r @ cafter c"] by (simp add: t nodes_plug)
  show ?thesis
  proof (cases r)
    case Lf
    then have "right (heap s n) = None" using tn by simp
    moreover have "parent (heap s n) = cpar c" using tn by simp
    ultimately show ?thesis
      using Next_up_ctx [OF cx _ d(2,3)] su Lf by (simp add: Next_def)
  next
    case (Nd r1 x r2)
    then have "right (heap s n) = Some x" "is_tree s (Some n) (Some x) r" using tn by auto
    then show ?thesis using Next_down_tree [of s "Some n" x r] su Nd by (simp add: Next_def)
  qed
qed

lemma Previous_inorder:
  assumes "is_tree s None (root s) t" and "distinct (nodes t)" and "n \<in> set (nodes t)"
  shows "Previous s n = Some (pred_in (nodes t) n)"
proof -
  from in_nodes_plug [OF assms(3)] obtain c l r where t: "t = plug c (Nd l n r)" by blast
  from assms(1) have tn: "is_tree s (cpar c) (Some n) (Nd l n r)" and cx: "is_ctx s c (Some n)"
    by (simp_all add: t is_tree_plug)
  from assms(2) have d: "n \<notin> set (cbefore c @ nodes l)" "n \<notin> set (cbefore c @ cafter c)"
    "distinct (cbefore c @ cafter c)"
    by (auto simp: t nodes_plug)
  have su: "pred_in (nodes t) n = last_opt None (cbefore c @ nodes l)"
    using pred_in_split [OF d(1), of "nodes r @ cafter c"] by (simp add: t nodes_plug)
  show ?thesis
  proof (cases l)
    case Lf
    then have "left (heap s n) = None" using tn by simp
    moreover have "parent (heap s n) = cpar c" using tn by simp
    ultimately show ?thesis
      using Previous_up_ctx [OF cx _ d(2,3)] su Lf by (simp add: Previous_def)
  next
    case (Nd l1 x l2)
    then have "left (heap s n) = Some x" "is_tree s (Some n) (Some x) l" using tn by auto
    then show ?thesis
      using Previous_down_tree [of s "Some n" x l] su Nd
      by (simp add: Previous_def)
  qed
qed

lemma Less_iv_asym: "Less_iv a b \<Longrightarrow> \<not> Less_iv b a"
  using Less_iv_trans [of a b a] Less_iv_irrefl [of a] by blast

lemma least_greater_succ_in:
  assumes srt: "sorted_wrt (\<lambda>a b. Less_iv (interval (heap s a)) (interval (heap s b))) xs"
    and n: "n \<in> set xs"
  shows "least_greater s xs n (succ_in xs n)"
proof -
  from split_list_first [OF n] obtain ys zs where xs: "xs = ys @ n # zs" and ny: "n \<notin> set ys"
    by blast
  have su: "succ_in xs n = first_opt zs None" using succ_in_split [OF ny] xs by simp
  from srt have lt: "\<And>m. m \<in> set ys \<Longrightarrow> Less_iv (interval (heap s m)) (interval (heap s n))"
    and gt: "\<And>m. m \<in> set zs \<Longrightarrow> Less_iv (interval (heap s n)) (interval (heap s m))"
    and sz: "sorted_wrt (\<lambda>a b. Less_iv (interval (heap s a)) (interval (heap s b))) zs"
    by (auto simp: xs sorted_wrt_append)
  show ?thesis
  proof (cases zs)
    case Nil
    then show ?thesis
      using su lt by (auto simp: least_greater_def xs Less_iv_irrefl dest: Less_iv_asym)
  next
    case (Cons z zs')
    then have "\<And>m. m \<in> set zs' \<Longrightarrow> Less_iv (interval (heap s z)) (interval (heap s m))"
      using sz by auto
    then show ?thesis
      using su lt gt Cons
      by (auto simp: least_greater_def xs Less_iv_irrefl dest: Less_iv_asym)
  qed
qed

lemma greatest_less_pred_in:
  assumes srt: "sorted_wrt (\<lambda>a b. Less_iv (interval (heap s a)) (interval (heap s b))) xs"
    and n: "n \<in> set xs"
  shows "greatest_less s xs n (pred_in xs n)"
proof -
  from split_list_first [OF n] obtain ys zs where xs: "xs = ys @ n # zs" and ny: "n \<notin> set ys"
    by blast
  have su: "pred_in xs n = last_opt None ys" using pred_in_split [OF ny] xs by simp
  from srt have lt: "\<And>m. m \<in> set ys \<Longrightarrow> Less_iv (interval (heap s m)) (interval (heap s n))"
    and gt: "\<And>m. m \<in> set zs \<Longrightarrow> Less_iv (interval (heap s n)) (interval (heap s m))"
    and sy: "sorted_wrt (\<lambda>a b. Less_iv (interval (heap s a)) (interval (heap s b))) ys"
    by (auto simp: xs sorted_wrt_append)
  show ?thesis
  proof (cases ys rule: rev_cases)
    case Nil
    then show ?thesis
      using su gt by (auto simp: greatest_less_def xs Less_iv_irrefl dest: Less_iv_asym)
  next
    case (snoc ys' y)
    then have "\<And>m. m \<in> set ys' \<Longrightarrow> Less_iv (interval (heap s m)) (interval (heap s y))"
      using sy by (auto simp: sorted_wrt_append)
    then show ?thesis
      using su lt gt snoc
      by (auto simp: greatest_less_def xs Less_iv_irrefl dest: Less_iv_asym)
  qed
qed

text \<open>
  C8. In a tree that satisfies the structural invariants, for every node \<open>n\<close> of the tree,
  \<open>Next\<close> returns the node that follows \<open>n\<close> in the in-order enumeration, which holds the
  smallest key greater than the key of \<open>n\<close>, or nil when \<open>n\<close> holds the greatest key;
  \<open>Previous\<close> returns the node before \<open>n\<close>, which holds the greatest key smaller than
  the key of \<open>n\<close>, or nil when \<open>n\<close> holds the smallest key.
\<close>

theorem Next_Previous_inorder:
  assumes "invar s" and "n \<in> set (nodes (tree_of s))"
  shows "Next s n = Some (succ_in (nodes (tree_of s)) n) \<and>
    least_greater s (nodes (tree_of s)) n (succ_in (nodes (tree_of s)) n) \<and>
    Previous s n = Some (pred_in (nodes (tree_of s)) n) \<and>
    greatest_less s (nodes (tree_of s)) n (pred_in (nodes (tree_of s)) n)"
proof -
  let ?t = "tree_of s"
  have t: "is_tree s None (root s) ?t" and d: "distinct (nodes ?t)" and b: "bst s ?t"
    using assms(1) by (simp_all add: invar_def I5_def I1_def repr_def)
  have srt: "sorted_wrt (\<lambda>a b. Less_iv (interval (heap s a)) (interval (heap s b))) (nodes ?t)"
    using b by (simp add: bst_def sorted_wrt_map)
  show ?thesis
    using Next_inorder [OF t d assms(2)] Previous_inorder [OF t d assms(2)]
      least_greater_succ_in [OF srt assms(2)] greatest_less_pred_in [OF srt assms(2)]
    by simp
qed

lemma ex_state_invar: "invar ex_state"
  by code_simp

lemma ex_iv_12_nonempty: "\<not> empty_iv (ex_iv 1 2)"
  by (simp add: empty_iv_def ex_iv_def lessOrEqual_def Less_def)

lemma ex_state_GetLess:
  "GetLess ex_state (ex_iv 1 2) = Some (Inr (Some 0)) \<and>
   GetLessEqual ex_state (ex_iv 1 2) = Some (Inr (Some 1))"
  by code_simp

theorem GetLess_GetLessEqual_agree_witness:
  "invar ex_state \<and> \<not> empty_iv (ex_iv 1 2) \<and>
   GetLess ex_state (ex_iv 1 2) = Some (Inr (Some 0)) \<and>
   GetLessEqual ex_state (ex_iv 1 2) = Some (Inr (Some 1)) \<and>
   \<not> (\<forall>a\<in>set (nodes (tree_of ex_state)). \<not> Equal_iv (interval (heap ex_state a)) (ex_iv 1 2))"
  using GetLess_GetLessEqual_agree [OF ex_state_invar ex_iv_12_nonempty]
    ex_state_invar ex_iv_12_nonempty ex_state_GetLess
  by simp

lemma ex_state_nodes: "nodes (tree_of ex_state) = [0, 1, 2]"
  by code_simp

theorem Next_Previous_inorder_witness:
  "invar ex_state \<and> 1 \<in> set (nodes (tree_of ex_state)) \<and>
   Next ex_state 1 = Some (Some 2) \<and> Previous ex_state 1 = Some (Some 0) \<and>
   Next ex_state 2 = Some None \<and> Previous ex_state 0 = Some None \<and>
   least_greater ex_state (nodes (tree_of ex_state)) 1 (Some 2) \<and>
   greatest_less ex_state (nodes (tree_of ex_state)) 1 (Some 0)"
  using Next_Previous_inorder [OF ex_state_invar, of 1]
    Next_Previous_inorder [OF ex_state_invar, of 2]
    Next_Previous_inorder [OF ex_state_invar, of 0] ex_state_invar
  by (simp add: ex_state_nodes succ_in_def pred_in_def)

lemma invar_D:
  assumes "invar s"
  shows "is_tree s None (root s) (tree_of s)" "distinct (nodes (tree_of s))"
    "\<And>a. a \<in> set (nodes (tree_of s)) \<Longrightarrow> a < alloc s"
    "bst s (tree_of s)" "mr_inv s (tree_of s)"
    "black s (root s)" "no_red_red s (tree_of s)" "balanced s (tree_of s)"
    "length_T s = int (length (nodes (tree_of s)))"
  using assms by (auto simp: invar_def I1_def I2_def I3_def I4_def I5_def repr_def)

lemma max3_ge: "x \<le> max3 x l r" "l = Some y \<Longrightarrow> y \<le> max3 x l r" "r = Some z \<Longrightarrow> z \<le> max3 x l r"
  by (auto simp: max3_def max_def split: option.splits)

lemma mr_inv_root_ge:
  "mr_inv s t \<Longrightarrow> x \<in> set (nodes t) \<Longrightarrow>
     \<exists>a. rootp t = Some a \<and> rank (Right (interval (heap s x))) \<le> rank (maxRight (heap s a))"
proof (induction t)
  case Lf
  then show ?case by simp
next
  case (Nd l a r)
  let ?m = "rank (maxRight (heap s a))"
  from Nd.prems have eq: "?m = max3 (rank (Right (interval (heap s a)))) (mr s (rootp l)) (mr s (rootp r))"
    and il: "mr_inv s l" and ir: "mr_inv s r" by auto
  consider "x = a" | "x \<in> set (nodes l)" | "x \<in> set (nodes r)" using Nd.prems by auto
  then show ?case
  proof cases
    case 1
    then show ?thesis using eq max3_ge(1) [of "rank (Right (interval (heap s a)))"] by simp
  next
    case 2
    from Nd.IH(1) [OF il 2] obtain b where b: "rootp l = Some b"
      "rank (Right (interval (heap s x))) \<le> rank (maxRight (heap s b))" by blast
    have "rank (maxRight (heap s b)) \<le> ?m"
      unfolding eq by (rule max3_ge(2)) (simp add: mr_def b)
    then show ?thesis using b by simp
  next
    case 3
    from Nd.IH(2) [OF ir 3] obtain b where b: "rootp r = Some b"
      "rank (Right (interval (heap s x))) \<le> rank (maxRight (heap s b))" by blast
    have "rank (maxRight (heap s b)) \<le> ?m"
      unfolding eq by (rule max3_ge(3)) (simp add: mr_def b)
    then show ?thesis using b by simp
  qed
qed

lemma Equal_iv_Right: "Equal_iv a b \<Longrightarrow> rank (Right a) = rank (Right b)"
  by (auto simp: Equal_iv_def equal_pt_def Less_def)

lemma replaceOrInsert_existing:
  assumes "is_tree s par (Some n) t" and "bst s t" and "mr_inv s t"
    and "x \<in> set (nodes t)" and "Equal_iv (interval (heap s x)) iv"
  shows "replaceOrInsert n iv v s =
           Some (Inr ((Value (heap s x), True), upd x (Value_update (\<lambda>_. v)) s))"
  using assms
proof (induction t arbitrary: par n)
  case Lf
  then show ?case by simp
next
  case (Nd l a r)
  note b = bst_Nd_D [OF Nd.prems(2)]
  from Nd.prems(1) have na: "n = a" and tl: "is_tree s (Some a) (left (heap s a)) l"
    and tr: "is_tree s (Some a) (right (heap s a)) r" by auto
  from Nd.prems(3) have il: "mr_inv s l" and ir: "mr_inv s r" by auto
  from mr_inv_root_ge [OF Nd.prems(3,4)] Equal_iv_Right [OF Nd.prems(5)]
  have nl: "\<not> Less (maxRight (heap s a)) (Right iv)" by (simp add: Less_def)
  have xiv: "\<not> Less_iv (interval (heap s x)) iv" "\<not> Less_iv iv (interval (heap s x))"
    using Nd.prems(5) by (simp_all add: Equal_iv_iff)
  consider (lt) "Less_iv (interval (heap s a)) iv" | (gt) "Less_iv iv (interval (heap s a))"
    | (eq) "\<not> Less_iv (interval (heap s a)) iv" "\<not> Less_iv iv (interval (heap s a))"
    by blast
  then show ?case
  proof cases
    case lt
    have "x \<noteq> a" using lt xiv by auto
    moreover have "x \<notin> set (nodes l)" using b(3) [of x] lt xiv Less_iv_trans by blast
    ultimately have xr: "x \<in> set (nodes r)" using Nd.prems(4) by auto
    then obtain r1 y r2 where r: "r = Nd r1 y r2" by (cases r) auto
    then have ry: "right (heap s a) = Some y" using tr by simp
    have "replaceOrInsert y iv v s =
        Some (Inr ((Value (heap s x), True), upd x (Value_update (\<lambda>_. v)) s))"
      using tr ry b(2) ir xr Nd.prems(5) by (intro Nd.IH(2) [of "Some a" y]) simp_all
    then show ?thesis using lt nl ry na by (subst replaceOrInsert.simps) simp
  next
    case gt
    then have ngt: "\<not> Less_iv (interval (heap s a)) iv" using Less_iv_asym by blast
    have "x \<noteq> a" using gt xiv by auto
    moreover have "x \<notin> set (nodes r)" using b(4) [of x] gt xiv Less_iv_trans by blast
    ultimately have xl: "x \<in> set (nodes l)" using Nd.prems(4) by auto
    then obtain l1 y l2 where l: "l = Nd l1 y l2" by (cases l) auto
    then have ly: "left (heap s a) = Some y" using tl by simp
    have "replaceOrInsert y iv v s =
        Some (Inr ((Value (heap s x), True), upd x (Value_update (\<lambda>_. v)) s))"
      using tl ly b(1) il xl Nd.prems(5) by (intro Nd.IH(1) [of "Some a" y]) simp_all
    then show ?thesis using gt ngt nl ly na by (subst replaceOrInsert.simps) simp
  next
    case eq
    then have ea: "Equal_iv (interval (heap s a)) iv" by (simp add: Equal_iv_iff)
    have "x \<notin> set (nodes l)"
      using b(3) [of x] Less_iv_Equal_trans [OF _ ea] xiv by blast
    moreover have "x \<notin> set (nodes r)"
    proof
      assume "x \<in> set (nodes r)"
      then have "Less_iv (interval (heap s a)) (interval (heap s x))" by (rule b(4))
      then have "Less_iv (interval (heap s a)) iv" using Nd.prems(5) by (rule Less_iv_Equal_trans)
      then show False using eq by simp
    qed
    ultimately have "x = a" using Nd.prems(4) by auto
    then show ?thesis using eq nl na by (subst replaceOrInsert.simps) simp
  qed
qed

subsection \<open>Invariants depend on the fields of the nodes of the tree only\<close>

lemma shape_of_cong:
  "(\<And>a. left (heap s' a) = left (heap s a) \<and> right (heap s' a) = right (heap s a)) \<Longrightarrow>
     shape_of k s' p = shape_of k s p"
  by (induction k s p rule: shape_of.induct) simp_all

lemma tree_of_cong:
  "(\<And>a. left (heap s' a) = left (heap s a) \<and> right (heap s' a) = right (heap s a)) \<Longrightarrow>
     alloc s' = alloc s \<Longrightarrow> root s' = root s \<Longrightarrow> tree_of s' = tree_of s"
  using shape_of_cong [of s' s "alloc s" "root s"] by (simp add: tree_of_def)

lemma bst_cong:
  "(\<And>a. a \<in> set (nodes t) \<Longrightarrow> interval (heap s' a) = interval (heap s a)) \<Longrightarrow>
     bst s' t = bst s t"
  unfolding bst_def by (rule arg_cong [where f = "sorted_wrt Less_iv"]) simp

lemma black_cong:
  "(\<And>a. p = Some a \<Longrightarrow> red (heap s' a) = red (heap s a)) \<Longrightarrow> black s' p = black s p"
  by (cases p) (simp_all add: black_def)

lemma bheight_cong:
  "(\<And>a. a \<in> set (nodes t) \<Longrightarrow> red (heap s' a) = red (heap s a)) \<Longrightarrow>
     bheight s' t = bheight s t"
  by (induction t) simp_all

lemma balanced_cong:
  "(\<And>a. a \<in> set (nodes t) \<Longrightarrow> red (heap s' a) = red (heap s a)) \<Longrightarrow>
     balanced s' t = balanced s t"
proof (induction t)
  case Lf
  then show ?case by simp
next
  case (Nd l a r)
  have "bheight s' l = bheight s l" "bheight s' r = bheight s r"
    using Nd.prems by (auto intro!: bheight_cong)
  then show ?case using Nd by simp
qed

lemma no_red_red_cong:
  "(\<And>a. a \<in> set (nodes t) \<Longrightarrow> red (heap s' a) = red (heap s a)) \<Longrightarrow>
     no_red_red s' t = no_red_red s t"
proof (induction t)
  case Lf
  then show ?case by simp
next
  case (Nd l a r)
  have "black s' (rootp l) = black s (rootp l)" "black s' (rootp r) = black s (rootp r)"
    using Nd.prems by (auto intro!: black_cong dest: rootp_nodes)
  then show ?case using Nd by simp
qed

lemma mr_cong:
  "(\<And>a. p = Some a \<Longrightarrow> rank (maxRight (heap s' a)) = rank (maxRight (heap s a))) \<Longrightarrow>
     mr s' p = mr s p"
  by (cases p) (simp_all add: mr_def)

lemma mr_inv_cong:
  "(\<And>a. a \<in> set (nodes t) \<Longrightarrow>
      rank (maxRight (heap s' a)) = rank (maxRight (heap s a)) \<and>
      interval (heap s' a) = interval (heap s a)) \<Longrightarrow>
     mr_inv s' t = mr_inv s t"
proof (induction t)
  case Lf
  then show ?case by simp
next
  case (Nd l a r)
  have "mr s' (rootp l) = mr s (rootp l)" "mr s' (rootp r) = mr s (rootp r)"
    using Nd.prems by (auto intro!: mr_cong dest: rootp_nodes)
  then show ?case using Nd by simp
qed

lemma is_tree_nonempty_root: "is_tree s par p t \<Longrightarrow> x \<in> set (nodes t) \<Longrightarrow> \<exists>a. p = Some a"
  by (cases t) auto

text \<open>
  C10. In a tree that satisfies the structural invariants and holds a node \<open>n\<close> whose key
  is equal to the non-empty interval \<open>i\<close>, \<open>ReplaceOrInsert i v\<close> returns the value of \<open>n\<close>
  with \<open>present = true\<close> and changes nothing but the field \<open>Value\<close> of \<open>n\<close>: the new
  state is the old one with that one field written, so the root, the length and every
  node's key, colour, links and \<open>maxRight\<close> are as before, and the tree of the new state
  is the tree of the old one.
\<close>

theorem ReplaceOrInsert_existing_key:
  assumes "invar s" and "\<not> empty_iv i" and "n \<in> set (nodes (tree_of s))"
    and "Equal_iv (interval (heap s n)) i"
  shows "\<exists>s'. ReplaceOrInsert i v s = Some (Inr ((Value (heap s n), True), s')) \<and>
    s' = upd n (Value_update (\<lambda>_. v)) s \<and>
    root s' = root s \<and> length_T s' = length_T s \<and> alloc s' = alloc s \<and>
    Value (heap s' n) = v \<and>
    (\<forall>a. (a \<noteq> n \<longrightarrow> Value (heap s' a) = Value (heap s a)) \<and>
         interval (heap s' a) = interval (heap s a) \<and> red (heap s' a) = red (heap s a) \<and>
         parent (heap s' a) = parent (heap s a) \<and> left (heap s' a) = left (heap s a) \<and>
         right (heap s' a) = right (heap s a) \<and> maxRight (heap s' a) = maxRight (heap s a)) \<and>
    tree_of s' = tree_of s \<and> invar s'"
proof -
  note i = invar_D [OF assms(1)]
  let ?s' = "upd n (Value_update (\<lambda>_. v)) s"
  from is_tree_nonempty_root [OF i(1) assms(3)] obtain r where r: "root s = Some r" by blast
  have len: "length_T s \<noteq> 0" using i(9) assms(3) by (cases "nodes (tree_of s)") auto
  have roi: "ReplaceOrInsert i v s = Some (Inr ((Value (heap s n), True), ?s'))"
    using replaceOrInsert_existing [OF i(1) [unfolded r] i(4) i(5) assms(3,4), of v]
      assms(2) len r
    by (simp add: ReplaceOrInsert_def)
  have t: "tree_of ?s' = tree_of s" by (rule tree_of_cong) simp_all
  have "is_tree ?s' None (root ?s') (tree_of s)"
    using i(1) is_tree_cong [of "tree_of s" s ?s' None "root s"] by (simp add: same_links_def)
  moreover have "bst ?s' (tree_of s)" using i(4) bst_cong [of "tree_of s" ?s' s] by simp
  moreover have "mr_inv ?s' (tree_of s)" using i(5) mr_inv_cong [of "tree_of s" ?s' s] by simp
  moreover have "black ?s' (root ?s')" using i(6) black_cong [of "root s" ?s' s] by simp
  moreover have "no_red_red ?s' (tree_of s)"
    using i(7) no_red_red_cong [of "tree_of s" ?s' s] by simp
  moreover have "balanced ?s' (tree_of s)" using i(8) balanced_cong [of "tree_of s" ?s' s] by simp
  ultimately have inv: "invar ?s'"
    using i(2,3,9) t by (simp add: invar_def I1_def I2_def I3_def I4_def I5_def repr_def)
  show ?thesis
    using roi t inv by simp
qed

lemma ex_state_node1:
  "Equal_iv (interval (heap ex_state 1)) (ex_iv 1 2) \<and> Value (heap ex_state 1) = Some 1"
  by code_simp

theorem ReplaceOrInsert_existing_key_witness:
  "invar ex_state \<and> \<not> empty_iv (ex_iv 1 2) \<and> 1 \<in> set (nodes (tree_of ex_state)) \<and>
   Equal_iv (interval (heap ex_state 1)) (ex_iv 1 2) \<and>
   ReplaceOrInsert (ex_iv 1 2) (Some 7) ex_state =
     Some (Inr ((Some 1, True), upd 1 (Value_update (\<lambda>_. Some 7)) ex_state)) \<and>
   invar (upd 1 (Value_update (\<lambda>_. Some 7)) ex_state)"
proof -
  have m: "1 \<in> set (nodes (tree_of ex_state))" by (simp add: ex_state_nodes)
  have e: "Equal_iv (interval (heap ex_state 1)) (ex_iv 1 2)" using ex_state_node1 by simp
  show ?thesis
    using ReplaceOrInsert_existing_key [OF ex_state_invar ex_iv_12_nonempty m e, of "Some 7"]
      ex_state_invar ex_iv_12_nonempty m ex_state_node1
    by auto
qed

lemma plug_append: "plug (c1 @ c2) t = plug c2 (plug c1 t)"
  by (induction c1 t rule: plug.induct) simp_all

lemma rootp_plug_frame [simp]: "rootp (plug [f] t) = Some (faddr f)"
  by (cases f) simp_all

lemma bheight_plug_frame:
  "bheight s (fsib f) = bheight s t \<Longrightarrow>
     bheight s (plug [f] t) = bheight s t + (if red (heap s (faddr f)) then 0 else 1)"
  by (cases f) simp_all

lemma balanced_plug_frame:
  "balanced s (plug [f] t) \<longleftrightarrow>
     balanced s t \<and> balanced s (fsib f) \<and> bheight s (fsib f) = bheight s t"
  by (cases f) auto

lemma balanced_plug:
  "balanced s (plug c t) \<longleftrightarrow> balanced s t \<and> ctx_bal s c (bheight s t)"
proof (induction c arbitrary: t)
  case Nil
  then show ?case by simp
next
  case (Cons f c)
  have "plug (f # c) t = plug c (plug [f] t)" by (cases f) simp_all
  then show ?case
    using Cons.IH [of "plug [f] t"] bheight_plug_frame [of s f t]
    by (auto simp: balanced_plug_frame)
qed

lemma no_red_red_plug_frame:
  "no_red_red s (plug [f] t) \<longleftrightarrow>
     no_red_red s t \<and> no_red_red s (fsib f) \<and>
     (red (heap s (faddr f)) \<longrightarrow> black s (rootp t) \<and> black s (rootp (fsib f)))"
  by (cases f) auto

lemma black_Some [simp]: "black s (Some a) \<longleftrightarrow> \<not> red (heap s a)"
  by (simp add: black_def)

lemma black_None [simp]: "black s None"
  by (simp add: black_def)

lemma no_red_red_plug:
  "no_red_red s (plug c t) \<longleftrightarrow> no_red_red s t \<and> ctx_rr s c (black s (rootp t))"
proof (induction c arbitrary: t)
  case Nil
  then show ?case by simp
next
  case (Cons f c)
  have "plug (f # c) t = plug c (plug [f] t)" by (cases f) simp_all
  then show ?case
    using Cons.IH [of "plug [f] t"]
    by (auto simp: no_red_red_plug_frame)
qed

lemma root_black_plug: "black s (rootp (plug c t)) = ctx_root_black s c (black s (rootp t))"
proof (induction c arbitrary: t)
  case Nil
  then show ?case by simp
next
  case (Cons f c)
  have "plug (f # c) t = plug c (plug [f] t)" by (cases f) simp_all
  then show ?case using Cons.IH [of "plug [f] t"] by simp
qed

lemma mr_Some [simp]: "mr s (Some a) = Some (rank (maxRight (heap s a)))"
  by (simp add: mr_def)

lemma mr_None [simp]: "mr s None = None"
  by (simp add: mr_def)

lemma mr_inv_plug:
  "mr_inv s (plug c t) \<longleftrightarrow> mr_inv s t \<and> ctx_mr s c (mr s (rootp t))"
proof (induction c t rule: plug.induct)
  case (1 t)
  then show ?case by simp
next
  case (2 a sib c t)
  then show ?case by auto
next
  case (3 a sib c t)
  then show ?case by auto
qed

subsection \<open>Contexts depend on the fields of their own nodes only\<close>

lemma ctx_nodes_Cons:
  "set (cbefore (f # c) @ cafter (f # c)) =
     insert (faddr f) (set (nodes (fsib f)) \<union> set (cbefore c @ cafter c))"
  by (cases f) auto

lemma ctx_bal_cong:
  "(\<And>a. a \<in> set (cbefore c @ cafter c) \<Longrightarrow> red (heap s' a) = red (heap s a)) \<Longrightarrow>
     ctx_bal s' c k = ctx_bal s c k"
proof (induction c arbitrary: k)
  case Nil
  then show ?case by simp
next
  case (Cons f c)
  have r: "red (heap s' a) = red (heap s a)"
    if "a = faddr f \<or> a \<in> set (nodes (fsib f)) \<or> a \<in> set (cbefore c @ cafter c)" for a
    using Cons.prems [of a] that unfolding ctx_nodes_Cons by blast
  have "balanced s' (fsib f) = balanced s (fsib f)" "bheight s' (fsib f) = bheight s (fsib f)"
    using r by (auto intro!: balanced_cong bheight_cong)
  moreover have "ctx_bal s' c j = ctx_bal s c j" for j using r by (intro Cons.IH) blast
  ultimately show ?case using r [of "faddr f"] by simp
qed

lemma ctx_rr_cong:
  "(\<And>a. a \<in> set (cbefore c @ cafter c) \<Longrightarrow> red (heap s' a) = red (heap s a)) \<Longrightarrow>
     ctx_rr s' c b = ctx_rr s c b"
proof (induction c arbitrary: b)
  case Nil
  then show ?case by simp
next
  case (Cons f c)
  have r: "red (heap s' a) = red (heap s a)"
    if "a = faddr f \<or> a \<in> set (nodes (fsib f)) \<or> a \<in> set (cbefore c @ cafter c)" for a
    using Cons.prems [of a] that unfolding ctx_nodes_Cons by blast
  have "no_red_red s' (fsib f) = no_red_red s (fsib f)"
    "black s' (rootp (fsib f)) = black s (rootp (fsib f))"
    using r by (auto intro!: no_red_red_cong black_cong dest: rootp_nodes)
  moreover have "ctx_rr s' c j = ctx_rr s c j" for j using r by (intro Cons.IH) blast
  ultimately show ?case using r [of "faddr f"] by simp
qed

lemma ctx_root_black_cong:
  "(\<And>a. a \<in> set (cbefore c @ cafter c) \<Longrightarrow> red (heap s' a) = red (heap s a)) \<Longrightarrow>
     ctx_root_black s' c b = ctx_root_black s c b"
proof (induction c arbitrary: b)
  case Nil
  then show ?case by simp
next
  case (Cons f c)
  have r: "red (heap s' a) = red (heap s a)"
    if "a = faddr f \<or> a \<in> set (cbefore c @ cafter c)" for a
    using Cons.prems [of a] that unfolding ctx_nodes_Cons by blast
  have "ctx_root_black s' c j = ctx_root_black s c j" for j using r by (intro Cons.IH) blast
  then show ?case using r [of "faddr f"] by simp
qed

lemma ctx_mr_cong:
  "(\<And>a. a \<in> set (cbefore c @ cafter c) \<Longrightarrow>
      rank (maxRight (heap s' a)) = rank (maxRight (heap s a)) \<and>
      interval (heap s' a) = interval (heap s a)) \<Longrightarrow>
     ctx_mr s' c k = ctx_mr s c k"
proof (induction c arbitrary: k)
  case Nil
  then show ?case by simp
next
  case (Cons f c)
  have r: "rank (maxRight (heap s' a)) = rank (maxRight (heap s a)) \<and>
      interval (heap s' a) = interval (heap s a)"
    if "a = faddr f \<or> a \<in> set (nodes (fsib f)) \<or> a \<in> set (cbefore c @ cafter c)" for a
    using Cons.prems [of a] that unfolding ctx_nodes_Cons by blast
  have 1: "mr_inv s' (fsib f) = mr_inv s (fsib f)" "mr s' (rootp (fsib f)) = mr s (rootp (fsib f))"
    using r by (auto intro!: mr_inv_cong mr_cong dest: rootp_nodes)
  have 2: "ctx_mr s' c j = ctx_mr s c j" for j using r by (intro Cons.IH) blast
  show ?case using 1 2 r [of "faddr f"] by (cases f) simp_all
qed

lemma max3_rotL:
  assumes "kn = max3 rn b c" and "km = max3 rm a (Some kn)"
    and "m' = max3 rm a b" and "n' = max kn m'"
  shows "n' = max3 rn (Some m') c" and "n' = km"
  using assms by (auto simp: max3_def max_def split: option.splits)

lemma max3_rotR:
  assumes "km = max3 rm a b" and "kn = max3 rn (Some km) c"
    and "n' = max3 rn b c" and "m' = max km n'"
  shows "m' = max3 rm a (Some n')" and "m' = kn"
  using assms by (auto simp: max3_def max_def split: option.splits)

lemma rank_maxpt: "rank (maxpt x vo) = (case vo of None \<Rightarrow> rank x | Some v \<Rightarrow> max (rank x) (rank v))"
  by (auto simp: maxpt_def Less_def max_def split: option.splits)

lemma rank_maxpt2:
  "rank (maxpt (maxpt x (mrp s p)) (mrp s q)) = max3 (rank x) (mr s p) (mr s q)"
  by (cases p; cases q) (simp_all add: rank_maxpt max3_def mrp_def mr_def)

lemma rotateLeft_inv:
  assumes T: "is_tree s None (root s) (plug c (Nd A m (Nd B n C)))"
    and D: "distinct (nodes (plug c (Nd A m (Nd B n C))))"
  shows "\<exists>s'. rotateLeft m s = Inr s' \<and>
    is_tree s' None (root s') (plug c (Nd (Nd A m B) n C)) \<and>
    (\<forall>a. red (heap s' a) = red (heap s a) \<and> interval (heap s' a) = interval (heap s a) \<and>
         Value (heap s' a) = Value (heap s a)) \<and>
    alloc s' = alloc s \<and> length_T s' = length_T s \<and>
    (mr_inv s (plug c (Nd A m (Nd B n C))) \<longrightarrow> mr_inv s' (plug c (Nd (Nd A m B) n C)))"
proof -
  from rotateLeft_shape [OF T D] obtain s' where s': "rotateLeft m s = Inr s'"
    and t': "is_tree s' None (root s') (plug c (Nd (Nd A m B) n C))"
    and hm: "heap s' m = rotL_m s m n" and hn: "heap s' n = rotL_n s m n"
    and ho: "\<And>a. a \<noteq> m \<Longrightarrow> a \<noteq> n \<Longrightarrow>
       red (heap s' a) = red (heap s a) \<and> interval (heap s' a) = interval (heap s a) \<and>
       Value (heap s' a) = Value (heap s a) \<and> maxRight (heap s' a) = maxRight (heap s a)"
    and al: "alloc s' = alloc s" "length_T s' = length_T s"
    by blast
  have same: "red (heap s' a) = red (heap s a) \<and> interval (heap s' a) = interval (heap s a) \<and>
         Value (heap s' a) = Value (heap s a)" for a
    using ho [of a] hm hn by (cases "a = m"; cases "a = n") (simp_all add: rotL_m_def rotL_n_def)
  from T have t: "is_tree s (cpar c) (Some m) (Nd A m (Nd B n C))" by (simp add: is_tree_plug)
  then have l: "left (heap s m) = rootp A" "left (heap s n) = rootp B"
    by (auto dest: is_tree_rootp)
  from D have d: "m \<notin> set (nodes A)" "m \<notin> set (nodes B)" "m \<notin> set (nodes C)"
    "n \<notin> set (nodes A)" "n \<notin> set (nodes B)" "n \<notin> set (nodes C)"
    "m \<notin> set (cbefore c @ cafter c)" "n \<notin> set (cbefore c @ cafter c)"
    by (auto simp: nodes_plug)
  have keep: "rank (maxRight (heap s' a)) = rank (maxRight (heap s a)) \<and>
      interval (heap s' a) = interval (heap s a)" if "a \<noteq> m" "a \<noteq> n" for a
    using ho [OF that] by simp
  have mrk: "mr s' (rootp X) = mr s (rootp X)" if "m \<notin> set (nodes X)" "n \<notin> set (nodes X)" for X
  proof (rule mr_cong)
    fix a assume "rootp X = Some a"
    then have "a \<in> set (nodes X)" by (rule rootp_nodes)
    with that have "a \<noteq> m" "a \<noteq> n" by auto
    then show "rank (maxRight (heap s' a)) = rank (maxRight (heap s a))" using keep by simp
  qed
  have invk: "mr_inv s' X = mr_inv s X" if "m \<notin> set (nodes X)" "n \<notin> set (nodes X)" for X
  proof (rule mr_inv_cong)
    fix a assume "a \<in> set (nodes X)"
    with that have "a \<noteq> m" "a \<noteq> n" by auto
    then show "rank (maxRight (heap s' a)) = rank (maxRight (heap s a)) \<and>
      interval (heap s' a) = interval (heap s a)" by (rule keep)
  qed
  have m': "rank (maxRight (heap s' m)) =
      max3 (rank (Right (interval (heap s m)))) (mr s (rootp A)) (mr s (rootp B))"
    by (simp add: hm rotL_m_def l rank_maxpt2)
  have n': "rank (maxRight (heap s' n)) =
      max (rank (maxRight (heap s n))) (rank (maxRight (heap s' m)))"
    by (simp add: hn rotL_n_def rank_maxpt hm)
  have "mr_inv s' (plug c (Nd (Nd A m B) n C))" if I: "mr_inv s (plug c (Nd A m (Nd B n C)))"
  proof -
    from I have J: "mr_inv s (Nd A m (Nd B n C))"
      and cm: "ctx_mr s c (Some (rank (maxRight (heap s m))))"
      by (simp_all add: mr_inv_plug del: mr_inv.simps)
    from J have iA: "mr_inv s A" and iB: "mr_inv s B" and iC: "mr_inv s C"
      and kn: "rank (maxRight (heap s n)) =
        max3 (rank (Right (interval (heap s n)))) (mr s (rootp B)) (mr s (rootp C))"
      and km: "rank (maxRight (heap s m)) =
        max3 (rank (Right (interval (heap s m)))) (mr s (rootp A)) (Some (rank (maxRight (heap s n))))"
      by simp_all
    note ar = max3_rotL [OF kn km m' n']
    have "ctx_mr s' c k = ctx_mr s c k" for k
    proof (rule ctx_mr_cong)
      fix a assume "a \<in> set (cbefore c @ cafter c)"
      with d have "a \<noteq> m" "a \<noteq> n" by auto
      then show "rank (maxRight (heap s' a)) = rank (maxRight (heap s a)) \<and>
        interval (heap s' a) = interval (heap s a)" by (rule keep)
    qed
    then show ?thesis
      using iA iB iC cm ar m' d same
      by (simp add: mr_inv_plug invk mrk)
  qed
  then show ?thesis using s' t' same al by blast
qed

lemma rotateRight_inv:
  assumes T: "is_tree s None (root s) (plug c (Nd (Nd A m B) n C))"
    and D: "distinct (nodes (plug c (Nd (Nd A m B) n C)))"
  shows "\<exists>s'. rotateRight n s = Inr s' \<and>
    is_tree s' None (root s') (plug c (Nd A m (Nd B n C))) \<and>
    (\<forall>a. red (heap s' a) = red (heap s a) \<and> interval (heap s' a) = interval (heap s a) \<and>
         Value (heap s' a) = Value (heap s a)) \<and>
    alloc s' = alloc s \<and> length_T s' = length_T s \<and>
    (mr_inv s (plug c (Nd (Nd A m B) n C)) \<longrightarrow> mr_inv s' (plug c (Nd A m (Nd B n C))))"
proof -
  from rotateRight_shape [OF T D] obtain s' where s': "rotateRight n s = Inr s'"
    and t': "is_tree s' None (root s') (plug c (Nd A m (Nd B n C)))"
    and hn: "heap s' n = rotR_n s n m" and hm: "heap s' m = rotR_m s n m"
    and ho: "\<And>a. a \<noteq> m \<Longrightarrow> a \<noteq> n \<Longrightarrow>
       red (heap s' a) = red (heap s a) \<and> interval (heap s' a) = interval (heap s a) \<and>
       Value (heap s' a) = Value (heap s a) \<and> maxRight (heap s' a) = maxRight (heap s a)"
    and al: "alloc s' = alloc s" "length_T s' = length_T s"
    by blast
  have same: "red (heap s' a) = red (heap s a) \<and> interval (heap s' a) = interval (heap s a) \<and>
         Value (heap s' a) = Value (heap s a)" for a
    using ho [of a] hm hn by (cases "a = m"; cases "a = n") (simp_all add: rotR_m_def rotR_n_def)
  from T have t: "is_tree s (cpar c) (Some n) (Nd (Nd A m B) n C)" by (simp add: is_tree_plug)
  then have l: "right (heap s m) = rootp B" "right (heap s n) = rootp C"
    by (auto dest: is_tree_rootp)
  from D have d: "m \<notin> set (nodes A)" "m \<notin> set (nodes B)" "m \<notin> set (nodes C)"
    "n \<notin> set (nodes A)" "n \<notin> set (nodes B)" "n \<notin> set (nodes C)"
    "m \<notin> set (cbefore c @ cafter c)" "n \<notin> set (cbefore c @ cafter c)"
    by (auto simp: nodes_plug)
  have keep: "rank (maxRight (heap s' a)) = rank (maxRight (heap s a)) \<and>
      interval (heap s' a) = interval (heap s a)" if "a \<noteq> m" "a \<noteq> n" for a
    using ho [OF that] by simp
  have mrk: "mr s' (rootp X) = mr s (rootp X)" if "m \<notin> set (nodes X)" "n \<notin> set (nodes X)" for X
  proof (rule mr_cong)
    fix a assume "rootp X = Some a"
    then have "a \<in> set (nodes X)" by (rule rootp_nodes)
    with that have "a \<noteq> m" "a \<noteq> n" by auto
    then show "rank (maxRight (heap s' a)) = rank (maxRight (heap s a))" using keep by simp
  qed
  have invk: "mr_inv s' X = mr_inv s X" if "m \<notin> set (nodes X)" "n \<notin> set (nodes X)" for X
  proof (rule mr_inv_cong)
    fix a assume "a \<in> set (nodes X)"
    with that have "a \<noteq> m" "a \<noteq> n" by auto
    then show "rank (maxRight (heap s' a)) = rank (maxRight (heap s a)) \<and>
      interval (heap s' a) = interval (heap s a)" by (rule keep)
  qed
  have n': "rank (maxRight (heap s' n)) =
      max3 (rank (Right (interval (heap s n)))) (mr s (rootp B)) (mr s (rootp C))"
    by (simp add: hn rotR_n_def l rank_maxpt2)
  have m': "rank (maxRight (heap s' m)) =
      max (rank (maxRight (heap s m))) (rank (maxRight (heap s' n)))"
    by (simp add: hm rotR_m_def rank_maxpt hn)
  have "mr_inv s' (plug c (Nd A m (Nd B n C)))" if I: "mr_inv s (plug c (Nd (Nd A m B) n C))"
  proof -
    from I have J: "mr_inv s (Nd (Nd A m B) n C)"
      and cm: "ctx_mr s c (Some (rank (maxRight (heap s n))))"
      by (simp_all add: mr_inv_plug del: mr_inv.simps)
    from J have iA: "mr_inv s A" and iB: "mr_inv s B" and iC: "mr_inv s C"
      and km: "rank (maxRight (heap s m)) =
        max3 (rank (Right (interval (heap s m)))) (mr s (rootp A)) (mr s (rootp B))"
      and kn: "rank (maxRight (heap s n)) =
        max3 (rank (Right (interval (heap s n)))) (Some (rank (maxRight (heap s m)))) (mr s (rootp C))"
      by simp_all
    note ar = max3_rotR [OF km kn n' m']
    have "ctx_mr s' c k = ctx_mr s c k" for k
    proof (rule ctx_mr_cong)
      fix a assume "a \<in> set (cbefore c @ cafter c)"
      with d have "a \<noteq> m" "a \<noteq> n" by auto
      then show "rank (maxRight (heap s' a)) = rank (maxRight (heap s a)) \<and>
        interval (heap s' a) = interval (heap s a)" by (rule keep)
    qed
    then show ?thesis
      using iA iB iC cm ar n' d same
      by (simp add: mr_inv_plug invk mrk)
  qed
  then show ?thesis using s' t' same al by blast
qed

lemma is_tree_upd_red [simp]: "is_tree (upd a (red_update f) s) par p t = is_tree s par p t"
  by (rule is_tree_cong) (simp add: same_links_def)

lemma mr_inv_upd_red [simp]: "mr_inv (upd a (red_update f) s) t = mr_inv s t"
  by (rule mr_inv_cong) simp

lemma mr_upd_red [simp]: "mr (upd a (red_update f) s) q = mr s q"
  by (rule mr_cong) simp

lemma bheight_upd_red [simp]:
  "a \<notin> set (nodes t) \<Longrightarrow> bheight (upd a (red_update f) s) t = bheight s t"
  by (rule bheight_cong) auto

lemma balanced_upd_red [simp]:
  "a \<notin> set (nodes t) \<Longrightarrow> balanced (upd a (red_update f) s) t = balanced s t"
  by (rule balanced_cong) auto

lemma no_red_red_upd_red [simp]:
  "a \<notin> set (nodes t) \<Longrightarrow> no_red_red (upd a (red_update f) s) t = no_red_red s t"
  by (rule no_red_red_cong) auto

lemma black_rootp_upd_red [simp]:
  "a \<notin> set (nodes t) \<Longrightarrow> black (upd a (red_update f) s) (rootp t) = black s (rootp t)"
  by (rule black_cong) (auto dest: rootp_nodes)

lemma ctx_bal_upd_red [simp]:
  "a \<notin> set (cbefore c) \<Longrightarrow> a \<notin> set (cafter c) \<Longrightarrow>
     ctx_bal (upd a (red_update f) s) c k = ctx_bal s c k"
  by (rule ctx_bal_cong) auto

lemma ctx_rr_upd_red [simp]:
  "a \<notin> set (cbefore c) \<Longrightarrow> a \<notin> set (cafter c) \<Longrightarrow>
     ctx_rr (upd a (red_update f) s) c k = ctx_rr s c k"
  by (rule ctx_rr_cong) auto

lemma ctx_root_black_upd_red [simp]:
  "a \<notin> set (cbefore c) \<Longrightarrow> a \<notin> set (cafter c) \<Longrightarrow>
     ctx_root_black (upd a (red_update f) s) c k = ctx_root_black s c k"
  by (rule ctx_root_black_cong) auto

lemma colour_cong:
  assumes "\<And>a. red (heap s' a) = red (heap s a)"
  shows "no_red_red s' t = no_red_red s t" "balanced s' t = balanced s t"
    "bheight s' t = bheight s t" "black s' q = black s q"
    "ctx_bal s' c k = ctx_bal s c k" "ctx_rr s' c b = ctx_rr s c b"
    "ctx_root_black s' c b = ctx_root_black s c b"
  using assms
  by (auto intro!: no_red_red_cong balanced_cong bheight_cong black_cong ctx_bal_cong ctx_rr_cong
      ctx_root_black_cong)

lemma black_case: "black s q \<Longrightarrow> (case q of None \<Rightarrow> False | Some u \<Rightarrow> red (heap s u)) = False"
  by (cases q) auto

lemma not_black_rootp: "\<not> black s (rootp t) \<Longrightarrow> \<exists>l u r. t = Nd l u r \<and> red (heap s u)"
  by (cases t) auto

lemma rebalanceRed_root:
  assumes "red (heap s n)" "parent (heap s n) = None"
  shows "rebalanceRed (Some n) s = Some (Inr (upd n (red_update (\<lambda>_. False)) s))"
  using assms by (subst rebalanceRed.simps) simp

lemma rebalanceRed_black_parent:
  assumes "red (heap s n)" "parent (heap s n) = Some p" "\<not> red (heap s p)"
  shows "rebalanceRed (Some n) s = Some (Inr s)"
  using assms by (subst rebalanceRed.simps) simp

lemma rebalanceRed_red_auncle:
  assumes "red (heap s n)" "parent (heap s n) = Some p" "red (heap s p)"
    "parent (heap s p) = Some g" "sibling s (Some p) (Some g) = Some u" "red (heap s u)"
  shows "rebalanceRed (Some n) s =
    rebalanceRed (Some g) (upd g (red_update (\<lambda>_. True)) (upd p (red_update (\<lambda>_. False))
       (upd u (red_update (\<lambda>_. False)) s)))"
  using assms by (subst rebalanceRed.simps) (simp add: Let_def)

lemma rebalanceRed_LL:
  assumes "red (heap s n)" "parent (heap s n) = Some p" "red (heap s p)"
    "parent (heap s p) = Some g" "black s (sibling s (Some p) (Some g))"
    "left (heap s p) = Some n" "left (heap s g) = Some p"
    "right (heap s p) \<noteq> Some n" "right (heap s g) \<noteq> Some p"
  shows "rebalanceRed (Some n) s =
    Some (rotateRight g (upd g (red_update (\<lambda>_. True)) (upd p (red_update (\<lambda>_. False)) s)))"
  using assms by (subst rebalanceRed.simps) (auto simp: Let_def black_case)

lemma rebalanceRed_RR:
  assumes "red (heap s n)" "parent (heap s n) = Some p" "red (heap s p)"
    "parent (heap s p) = Some g" "black s (sibling s (Some p) (Some g))"
    "right (heap s p) = Some n" "right (heap s g) = Some p"
    "left (heap s p) \<noteq> Some n" "left (heap s g) \<noteq> Some p"
  shows "rebalanceRed (Some n) s =
    Some (rotateLeft g (upd g (red_update (\<lambda>_. True)) (upd p (red_update (\<lambda>_. False)) s)))"
  using assms by (subst rebalanceRed.simps) (auto simp: Let_def black_case)

lemma rebalanceRed_LR:
  assumes "red (heap s n)" "parent (heap s n) = Some p" "red (heap s p)"
    "parent (heap s p) = Some g" "black s (sibling s (Some p) (Some g))"
    "right (heap s p) = Some n" "left (heap s g) = Some p"
    "rotateLeft p s = Inr s1" "left (heap s1 g) = Some n"
  shows "rebalanceRed (Some n) s =
    Some (rotateRight g (upd g (red_update (\<lambda>_. True)) (upd n (red_update (\<lambda>_. False)) s1)))"
  using assms by (subst rebalanceRed.simps) (auto simp: Let_def black_case)

lemma rebalanceRed_RL:
  assumes "red (heap s n)" "parent (heap s n) = Some p" "red (heap s p)"
    "parent (heap s p) = Some g" "black s (sibling s (Some p) (Some g))"
    "left (heap s p) = Some n" "right (heap s g) = Some p"
    "right (heap s p) \<noteq> Some n \<or> left (heap s g) \<noteq> Some p"
    "rotateRight p s = Inr s1" "right (heap s1 g) = Some n" "left (heap s1 n) \<noteq> right (heap s1 n)"
  shows "rebalanceRed (Some n) s =
    Some (rotateLeft g (upd g (red_update (\<lambda>_. True)) (upd n (red_update (\<lambda>_. False)) s1)))"
  using assms by (subst rebalanceRed.simps) (auto simp: Let_def black_case)

lemma cpar_Cons [simp]: "cpar (f # c) = Some (faddr f)"
  by (cases f) simp_all

lemma rebalanceRed_correct:
  "is_tree s None (root s) (plug c (Nd l n r)) \<Longrightarrow> distinct (nodes (plug c (Nd l n r))) \<Longrightarrow>
   red (heap s n) \<Longrightarrow> black s (rootp l) \<Longrightarrow> black s (rootp r) \<Longrightarrow>
   no_red_red s l \<Longrightarrow> no_red_red s r \<Longrightarrow> balanced s (Nd l n r) \<Longrightarrow>
   ctx_rr s c True \<Longrightarrow> ctx_bal s c (bheight s (Nd l n r)) \<Longrightarrow> ctx_root_black s c True \<Longrightarrow>
   mr_inv s (plug c (Nd l n r)) \<Longrightarrow>
   \<exists>s'. rebalanceRed (Some n) s = Some (Inr s') \<and> rb_post s s' (plug c (Nd l n r))"
proof (induction c arbitrary: s l n r rule: length_induct)
  case (1 c)
  note IH = "1.IH" [rule_format]
  note T = "1.prems"(1) and D = "1.prems"(2) and rn = "1.prems"(3)
    and bl = "1.prems"(4) and br = "1.prems"(5) and nl = "1.prems"(6) and nr = "1.prems"(7)
    and bal = "1.prems"(8) and crr = "1.prems"(9) and cbal = "1.prems"(10)
    and crb = "1.prems"(11) and mri = "1.prems"(12)
  show ?case
  proof (cases c)
    case Nil
    from T Nil have pn: "parent (heap s n) = None" and rt: "root s = Some n" by simp_all
    from D Nil have d: "n \<notin> set (nodes l)" "n \<notin> set (nodes r)" by simp_all
    let ?s' = "upd n (red_update (\<lambda>_. False)) s"
    have "rb_post s ?s' (plug c (Nd l n r))"
      unfolding rb_post_def
      apply (intro conjI exI [of _ "Nd l n r"])
      using T D bl br nl nr bal mri Nil d rt by simp_all
    then show ?thesis using rebalanceRed_root [OF rn pn] by simp
  next
    case (Cons f c')
    let ?p = "faddr f"
    from T have tn: "is_tree s (cpar c) (Some n) (Nd l n r)" by (simp add: is_tree_plug)
    then have pn: "parent (heap s n) = Some ?p" using Cons by simp
    have rt: "root s = rootp (plug c (Nd l n r))" using is_tree_rootp [OF T] .
    show ?thesis
    proof (cases "red (heap s ?p)")
      case False
      have "rb_post s s (plug c (Nd l n r))"
        unfolding rb_post_def
        apply (intro conjI exI [of _ "plug c (Nd l n r)"])
        using T D bl br nl nr bal mri crr cbal crb Cons False rn
        by (simp_all add: rt no_red_red_plug balanced_plug root_black_plug)
      then show ?thesis using rebalanceRed_black_parent [OF rn pn False] by simp
    next
      case rp: True
      from crb Cons rp obtain gf c'' where c': "c' = gf # c''" by (cases c') auto
      show ?thesis
      proof (cases f)
        case (FL p sp)
        show ?thesis
        proof (cases gf)
          case (FL g sg)
          note c = Cons c' \<open>f = FL p sp\<close> FL
          have pl: "plug c (Nd l n r) = plug c'' (Nd (Nd (Nd l n r) p sp) g sg)" by (simp add: c)
          from T have tg: "is_tree s (cpar c'') (Some g) (Nd (Nd (Nd l n r) p sp) g sg)"
            by (simp add: pl is_tree_plug)
          then have tsp: "is_tree s (Some p) (right (heap s p)) sp"
            and tsg: "is_tree s (Some g) (right (heap s g)) sg" by simp_all
          from tg have ptr: "parent (heap s n) = Some p" "left (heap s p) = Some n"
            "parent (heap s p) = Some g" "left (heap s g) = Some p"
            "right (heap s p) = rootp sp" "right (heap s g) = rootp sg"
            using is_tree_rootp [OF tsp] is_tree_rootp [OF tsg] by simp_all
          from D have d: "n \<noteq> p" "n \<noteq> g" "p \<noteq> g"
            "n \<notin> set (nodes sp)" "n \<notin> set (nodes sg)"
            "p \<notin> set (nodes l)" "p \<notin> set (nodes r)" "p \<notin> set (nodes sp)" "p \<notin> set (nodes sg)"
            "g \<notin> set (nodes l)" "g \<notin> set (nodes r)" "g \<notin> set (nodes sp)" "g \<notin> set (nodes sg)"
            "p \<notin> set (cbefore c'')" "p \<notin> set (cafter c'')"
            "g \<notin> set (cbefore c'')" "g \<notin> set (cafter c'')"
            by (auto simp: pl nodes_plug)
          from rp c have rp': "red (heap s p)" by simp
          from crr c rp' have col: "no_red_red s sp" "black s (rootp sp)" "no_red_red s sg"
            "\<not> red (heap s g)" "ctx_rr s c'' True" by auto
          from cbal c rp' col have bh: "balanced s sp" "bheight s sp = bheight s l"
            "balanced s sg" "bheight s sg = bheight s l" "ctx_bal s c'' (bheight s l + 1)"
            using rn by simp_all
          from crb c col have rb: "ctx_root_black s c'' True" by simp
          have sib: "sibling s (Some p) (Some g) = rootp sg" by (simp add: sibling_def ptr)
          have ne: "right (heap s p) \<noteq> Some n" "right (heap s g) \<noteq> Some p"
            using d by (simp_all add: ptr rootp_neq)
          show ?thesis
          proof (cases "black s (rootp sg)")
            case True
            let ?s2 = "upd g (red_update (\<lambda>_. True)) (upd p (red_update (\<lambda>_. False)) s)"
            have step: "rebalanceRed (Some n) s = Some (rotateRight g ?s2)"
              using rn ptr rp' sib True ne by (intro rebalanceRed_LL) simp_all
            have T2: "is_tree ?s2 None (root ?s2) (plug c'' (Nd (Nd (Nd l n r) p sp) g sg))"
              using T by (simp add: pl)
            from rotateRight_inv [OF T2 D [unfolded pl]] mri obtain s3 where
              s3: "rotateRight g ?s2 = Inr s3"
              and T3: "is_tree s3 None (root s3) (plug c'' (Nd (Nd l n r) p (Nd sp g sg)))"
              and same: "\<And>a. red (heap s3 a) = red (heap ?s2 a)"
                "\<And>a. interval (heap s3 a) = interval (heap s a)"
                "\<And>a. Value (heap s3 a) = Value (heap s a)"
              and al: "alloc s3 = alloc s" "length_T s3 = length_T s"
              and m3: "mr_inv s3 (plug c'' (Nd (Nd l n r) p (Nd sp g sg)))"
              by (auto simp: pl)
            note cc = colour_cong [of s3 ?s2, OF same(1)]
            have "rb_post s s3 (plug c (Nd l n r))"
              unfolding rb_post_def
              apply (intro conjI exI [of _ "plug c'' (Nd (Nd l n r) p (Nd sp g sg))"])
              using T3 m3 same al
                      apply (simp_all add: pl nodes_plug is_tree_rootp [OF T3] cc
                  no_red_red_plug balanced_plug root_black_plug)
              using d col bh rb bl br nl nr bal rn rp' True
              by simp_all
            then show ?thesis using step s3 by simp
          next
            case False
            then obtain ul u ur where sg: "sg = Nd ul u ur" and ru: "red (heap s u)"
              using not_black_rootp by blast
            from D have du: "u \<noteq> n" "u \<noteq> p" "u \<noteq> g"
              "u \<notin> set (nodes l)" "u \<notin> set (nodes r)" "u \<notin> set (nodes sp)"
              "u \<notin> set (nodes ul)" "u \<notin> set (nodes ur)"
              "p \<notin> set (nodes ul)" "p \<notin> set (nodes ur)"
              "g \<notin> set (nodes ul)" "g \<notin> set (nodes ur)"
              "u \<notin> set (cbefore c'')" "u \<notin> set (cafter c'')"
              by (auto simp: pl sg nodes_plug)
            let ?s2 = "upd g (red_update (\<lambda>_. True)) (upd p (red_update (\<lambda>_. False))
              (upd u (red_update (\<lambda>_. False)) s))"
            have step: "rebalanceRed (Some n) s = rebalanceRed (Some g) ?s2"
              using rn ptr rp' sib ru by (intro rebalanceRed_red_auncle) (simp_all add: sg)
            have "\<exists>s'. rebalanceRed (Some g) ?s2 = Some (Inr s') \<and>
              rb_post ?s2 s' (plug c'' (Nd (Nd (Nd l n r) p sp) g (Nd ul u ur)))"
              apply (rule IH)
              using T D mri d du col bh rb bl br nl nr bal rn rp' ru
              by (simp_all add: c pl sg)
            then obtain s' where "rebalanceRed (Some g) ?s2 = Some (Inr s')"
              and "rb_post ?s2 s' (plug c (Nd l n r))" by (auto simp: pl sg)
            then show ?thesis using step by (simp add: rb_post_def)
          qed
        next
          case (FR g sg)
          note c = Cons c' \<open>f = FL p sp\<close> FR
          have pl: "plug c (Nd l n r) = plug c'' (Nd sg g (Nd (Nd l n r) p sp))" by (simp add: c)
          from T have tg: "is_tree s (cpar c'') (Some g) (Nd sg g (Nd (Nd l n r) p sp))"
            by (simp add: pl is_tree_plug)
          then have tsp: "is_tree s (Some p) (right (heap s p)) sp"
            and tsg: "is_tree s (Some g) (left (heap s g)) sg" by simp_all
          from tg have ptr: "parent (heap s n) = Some p" "left (heap s p) = Some n"
            "parent (heap s p) = Some g" "right (heap s g) = Some p"
            "right (heap s p) = rootp sp" "left (heap s g) = rootp sg"
            using is_tree_rootp [OF tsp] is_tree_rootp [OF tsg] by simp_all
          from D have d: "n \<noteq> p" "n \<noteq> g" "p \<noteq> g"
            "n \<notin> set (nodes sp)" "n \<notin> set (nodes sg)"
            "n \<notin> set (nodes l)" "n \<notin> set (nodes r)"
            "p \<notin> set (nodes l)" "p \<notin> set (nodes r)" "p \<notin> set (nodes sp)" "p \<notin> set (nodes sg)"
            "g \<notin> set (nodes l)" "g \<notin> set (nodes r)" "g \<notin> set (nodes sp)" "g \<notin> set (nodes sg)"
            "n \<notin> set (cbefore c'')" "n \<notin> set (cafter c'')"
            "p \<notin> set (cbefore c'')" "p \<notin> set (cafter c'')"
            "g \<notin> set (cbefore c'')" "g \<notin> set (cafter c'')"
            by (auto simp: pl nodes_plug)
          from rp c have rp': "red (heap s p)" by simp
          from crr c rp' have col: "no_red_red s sp" "black s (rootp sp)" "no_red_red s sg"
            "\<not> red (heap s g)" "ctx_rr s c'' True" by auto
          from cbal c rp' col have bh: "balanced s sp" "bheight s sp = bheight s l"
            "balanced s sg" "bheight s sg = bheight s l" "ctx_bal s c'' (bheight s l + 1)"
            using rn by simp_all
          from crb c col have rb: "ctx_root_black s c'' True" by simp
          have sib: "sibling s (Some p) (Some g) = rootp sg"
            using d by (simp add: sibling_def ptr rootp_neq)
          have ne: "right (heap s p) \<noteq> Some n" "left (heap s g) \<noteq> Some p"
            using d by (simp_all add: ptr rootp_neq)
          show ?thesis
          proof (cases "black s (rootp sg)")
            case True
            have T0: "is_tree s None (root s) (plug (FR g sg # c'') (Nd (Nd l n r) p sp))"
              using T by (simp add: pl)
            have D0: "distinct (nodes (plug (FR g sg # c'') (Nd (Nd l n r) p sp)))"
              using D by (simp add: pl)
            from rotateRight_inv [OF T0 D0] mri obtain s1 where
              s1: "rotateRight p s = Inr s1"
              and T1: "is_tree s1 None (root s1) (plug c'' (Nd sg g (Nd l n (Nd r p sp))))"
              and same1: "\<And>a. red (heap s1 a) = red (heap s a)"
                "\<And>a. interval (heap s1 a) = interval (heap s a)"
                "\<And>a. Value (heap s1 a) = Value (heap s a)"
              and al1: "alloc s1 = alloc s" "length_T s1 = length_T s"
              and m1: "mr_inv s1 (plug c'' (Nd sg g (Nd l n (Nd r p sp))))"
              by (auto simp: pl)
            from T1 have tg1: "is_tree s1 (cpar c'') (Some g) (Nd sg g (Nd l n (Nd r p sp)))"
              by (simp add: is_tree_plug)
            then have tn1: "is_tree s1 (Some n) (left (heap s1 n)) l" by simp
            from tg1 have ptr1: "right (heap s1 g) = Some n" "right (heap s1 n) = Some p"
              by simp_all
            have ne1: "left (heap s1 n) \<noteq> right (heap s1 n)"
              using is_tree_rootp [OF tn1] ptr1 d by (auto dest: in_nodes)
            let ?s2 = "upd g (red_update (\<lambda>_. True)) (upd n (red_update (\<lambda>_. False)) s1)"
            have step: "rebalanceRed (Some n) s = Some (rotateLeft g ?s2)"
              using rn ptr rp' sib True ne s1 ptr1 ne1 by (intro rebalanceRed_RL) simp_all
            have T2: "is_tree ?s2 None (root ?s2) (plug c'' (Nd sg g (Nd l n (Nd r p sp))))"
              using T1 by simp
            have D2: "distinct (nodes (plug c'' (Nd sg g (Nd l n (Nd r p sp)))))"
              using D by (simp add: pl nodes_plug)
            from rotateLeft_inv [OF T2 D2] m1 obtain s3 where
              s3: "rotateLeft g ?s2 = Inr s3"
              and T3: "is_tree s3 None (root s3) (plug c'' (Nd (Nd sg g l) n (Nd r p sp)))"
              and same: "\<And>a. red (heap s3 a) = red (heap ?s2 a)"
                "\<And>a. interval (heap s3 a) = interval (heap s a)"
                "\<And>a. Value (heap s3 a) = Value (heap s a)"
              and al: "alloc s3 = alloc s" "length_T s3 = length_T s"
              and m3: "mr_inv s3 (plug c'' (Nd (Nd sg g l) n (Nd r p sp)))"
              by (auto simp: same1 al1)
            note cc = colour_cong [of s3 ?s2, OF same(1)]
            note cc1 = colour_cong [of s1 s, OF same1(1)]
            have "rb_post s s3 (plug c (Nd l n r))"
              unfolding rb_post_def
              apply (intro conjI exI [of _ "plug c'' (Nd (Nd sg g l) n (Nd r p sp))"])
              using T3 m3 same al
                      apply (simp_all add: pl nodes_plug is_tree_rootp [OF T3] cc
                  no_red_red_plug balanced_plug root_black_plug)
              using d col bh rb bl br nl nr bal rn rp' True
              by (simp_all add: cc1 same1)
            then show ?thesis using step s3 by simp
          next
            case False
            then obtain ul u ur where sg: "sg = Nd ul u ur" and ru: "red (heap s u)"
              using not_black_rootp by blast
            from D have du: "u \<noteq> n" "u \<noteq> p" "u \<noteq> g"
              "u \<notin> set (nodes l)" "u \<notin> set (nodes r)" "u \<notin> set (nodes sp)"
              "u \<notin> set (nodes ul)" "u \<notin> set (nodes ur)"
              "p \<notin> set (nodes ul)" "p \<notin> set (nodes ur)"
              "g \<notin> set (nodes ul)" "g \<notin> set (nodes ur)"
              "u \<notin> set (cbefore c'')" "u \<notin> set (cafter c'')"
              by (auto simp: pl sg nodes_plug)
            let ?s2 = "upd g (red_update (\<lambda>_. True)) (upd p (red_update (\<lambda>_. False))
              (upd u (red_update (\<lambda>_. False)) s))"
            have step: "rebalanceRed (Some n) s = rebalanceRed (Some g) ?s2"
              using rn ptr rp' sib ru by (intro rebalanceRed_red_auncle) (simp_all add: sg)
            have "\<exists>s'. rebalanceRed (Some g) ?s2 = Some (Inr s') \<and>
              rb_post ?s2 s' (plug c'' (Nd (Nd ul u ur) g (Nd (Nd l n r) p sp)))"
              apply (rule IH)
              using T D mri d du col bh rb bl br nl nr bal rn rp' ru
              by (simp_all add: c pl sg)
            then obtain s' where "rebalanceRed (Some g) ?s2 = Some (Inr s')"
              and "rb_post ?s2 s' (plug c (Nd l n r))" by (auto simp: pl sg)
            then show ?thesis using step by (simp add: rb_post_def)
          qed
        qed
      next
        case (FR p sp)
        show ?thesis
        proof (cases gf)
          case (FL g sg)
          note c = Cons c' \<open>f = FR p sp\<close> FL
          have pl: "plug c (Nd l n r) = plug c'' (Nd (Nd sp p (Nd l n r)) g sg)" by (simp add: c)
          from T have tg: "is_tree s (cpar c'') (Some g) (Nd (Nd sp p (Nd l n r)) g sg)"
            by (simp add: pl is_tree_plug)
          then have tsp: "is_tree s (Some p) (left (heap s p)) sp"
            and tsg: "is_tree s (Some g) (right (heap s g)) sg" by simp_all
          from tg have ptr: "parent (heap s n) = Some p" "right (heap s p) = Some n"
            "parent (heap s p) = Some g" "left (heap s g) = Some p"
            "left (heap s p) = rootp sp" "right (heap s g) = rootp sg"
            using is_tree_rootp [OF tsp] is_tree_rootp [OF tsg] by simp_all
          from D have d: "n \<noteq> p" "n \<noteq> g" "p \<noteq> g"
            "n \<notin> set (nodes sp)" "n \<notin> set (nodes sg)"
            "n \<notin> set (nodes l)" "n \<notin> set (nodes r)"
            "p \<notin> set (nodes l)" "p \<notin> set (nodes r)" "p \<notin> set (nodes sp)" "p \<notin> set (nodes sg)"
            "g \<notin> set (nodes l)" "g \<notin> set (nodes r)" "g \<notin> set (nodes sp)" "g \<notin> set (nodes sg)"
            "n \<notin> set (cbefore c'')" "n \<notin> set (cafter c'')"
            "p \<notin> set (cbefore c'')" "p \<notin> set (cafter c'')"
            "g \<notin> set (cbefore c'')" "g \<notin> set (cafter c'')"
            by (auto simp: pl nodes_plug)
          from rp c have rp': "red (heap s p)" by simp
          from crr c rp' have col: "no_red_red s sp" "black s (rootp sp)" "no_red_red s sg"
            "\<not> red (heap s g)" "ctx_rr s c'' True" by auto
          from cbal c rp' col have bh: "balanced s sp" "bheight s sp = bheight s l"
            "balanced s sg" "bheight s sg = bheight s l" "ctx_bal s c'' (bheight s l + 1)"
            using rn by simp_all
          from crb c col have rb: "ctx_root_black s c'' True" by simp
          have sib: "sibling s (Some p) (Some g) = rootp sg"
            using d by (simp add: sibling_def ptr rootp_neq)
          have ne: "left (heap s p) \<noteq> Some n" "right (heap s g) \<noteq> Some p"
            using d by (simp_all add: ptr rootp_neq)
          show ?thesis
          proof (cases "black s (rootp sg)")
            case True
            have T0: "is_tree s None (root s) (plug (FL g sg # c'') (Nd sp p (Nd l n r)))"
              using T by (simp add: pl)
            have D0: "distinct (nodes (plug (FL g sg # c'') (Nd sp p (Nd l n r))))"
              using D by (simp add: pl)
            from rotateLeft_inv [OF T0 D0] mri obtain s1 where
              s1: "rotateLeft p s = Inr s1"
              and T1: "is_tree s1 None (root s1) (plug c'' (Nd (Nd (Nd sp p l) n r) g sg))"
              and same1: "\<And>a. red (heap s1 a) = red (heap s a)"
                "\<And>a. interval (heap s1 a) = interval (heap s a)"
                "\<And>a. Value (heap s1 a) = Value (heap s a)"
              and al1: "alloc s1 = alloc s" "length_T s1 = length_T s"
              and m1: "mr_inv s1 (plug c'' (Nd (Nd (Nd sp p l) n r) g sg))"
              by (auto simp: pl)
            from T1 have tg1: "is_tree s1 (cpar c'') (Some g) (Nd (Nd (Nd sp p l) n r) g sg)"
              by (simp add: is_tree_plug)
            then have tn1: "is_tree s1 (Some n) (right (heap s1 n)) r" by simp
            from tg1 have ptr1: "left (heap s1 g) = Some n" "left (heap s1 n) = Some p"
              by simp_all
            have ne1: "left (heap s1 n) \<noteq> right (heap s1 n)"
              using is_tree_rootp [OF tn1] ptr1 d by (auto dest: in_nodes)
            let ?s2 = "upd g (red_update (\<lambda>_. True)) (upd n (red_update (\<lambda>_. False)) s1)"
            have step: "rebalanceRed (Some n) s = Some (rotateRight g ?s2)"
              using rn ptr rp' sib True ne s1 ptr1 ne1 by (intro rebalanceRed_LR) simp_all
            have T2: "is_tree ?s2 None (root ?s2) (plug c'' (Nd (Nd (Nd sp p l) n r) g sg))"
              using T1 by simp
            have D2: "distinct (nodes (plug c'' (Nd (Nd (Nd sp p l) n r) g sg)))"
              using D by (simp add: pl nodes_plug)
            from rotateRight_inv [OF T2 D2] m1 obtain s3 where
              s3: "rotateRight g ?s2 = Inr s3"
              and T3: "is_tree s3 None (root s3) (plug c'' (Nd (Nd sp p l) n (Nd r g sg)))"
              and same: "\<And>a. red (heap s3 a) = red (heap ?s2 a)"
                "\<And>a. interval (heap s3 a) = interval (heap s a)"
                "\<And>a. Value (heap s3 a) = Value (heap s a)"
              and al: "alloc s3 = alloc s" "length_T s3 = length_T s"
              and m3: "mr_inv s3 (plug c'' (Nd (Nd sp p l) n (Nd r g sg)))"
              by (auto simp: same1 al1)
            note cc = colour_cong [of s3 ?s2, OF same(1)]
            note cc1 = colour_cong [of s1 s, OF same1(1)]
            have "rb_post s s3 (plug c (Nd l n r))"
              unfolding rb_post_def
              apply (intro conjI exI [of _ "plug c'' (Nd (Nd sp p l) n (Nd r g sg))"])
              using T3 m3 same al
                      apply (simp_all add: pl nodes_plug is_tree_rootp [OF T3] cc
                  no_red_red_plug balanced_plug root_black_plug)
              using d col bh rb bl br nl nr bal rn rp' True
              by (simp_all add: cc1 same1)
            then show ?thesis using step s3 by simp
          next
            case False
            then obtain ul u ur where sg: "sg = Nd ul u ur" and ru: "red (heap s u)"
              using not_black_rootp by blast
            from D have du: "u \<noteq> n" "u \<noteq> p" "u \<noteq> g"
              "u \<notin> set (nodes l)" "u \<notin> set (nodes r)" "u \<notin> set (nodes sp)"
              "u \<notin> set (nodes ul)" "u \<notin> set (nodes ur)"
              "p \<notin> set (nodes ul)" "p \<notin> set (nodes ur)"
              "g \<notin> set (nodes ul)" "g \<notin> set (nodes ur)"
              "u \<notin> set (cbefore c'')" "u \<notin> set (cafter c'')"
              by (auto simp: pl sg nodes_plug)
            let ?s2 = "upd g (red_update (\<lambda>_. True)) (upd p (red_update (\<lambda>_. False))
              (upd u (red_update (\<lambda>_. False)) s))"
            have step: "rebalanceRed (Some n) s = rebalanceRed (Some g) ?s2"
              using rn ptr rp' sib ru by (intro rebalanceRed_red_auncle) (simp_all add: sg)
            have "\<exists>s'. rebalanceRed (Some g) ?s2 = Some (Inr s') \<and>
              rb_post ?s2 s' (plug c'' (Nd (Nd sp p (Nd l n r)) g (Nd ul u ur)))"
              apply (rule IH)
              using T D mri d du col bh rb bl br nl nr bal rn rp' ru
              by (simp_all add: c pl sg)
            then obtain s' where "rebalanceRed (Some g) ?s2 = Some (Inr s')"
              and "rb_post ?s2 s' (plug c (Nd l n r))" by (auto simp: pl sg)
            then show ?thesis using step by (simp add: rb_post_def)
          qed
        next
          case (FR g sg)
          note c = Cons c' \<open>f = FR p sp\<close> FR
          have pl: "plug c (Nd l n r) = plug c'' (Nd sg g (Nd sp p (Nd l n r)))" by (simp add: c)
          from T have tg: "is_tree s (cpar c'') (Some g) (Nd sg g (Nd sp p (Nd l n r)))"
            by (simp add: pl is_tree_plug)
          then have tsp: "is_tree s (Some p) (left (heap s p)) sp"
            and tsg: "is_tree s (Some g) (left (heap s g)) sg" by simp_all
          from tg have ptr: "parent (heap s n) = Some p" "right (heap s p) = Some n"
            "parent (heap s p) = Some g" "right (heap s g) = Some p"
            "left (heap s p) = rootp sp" "left (heap s g) = rootp sg"
            using is_tree_rootp [OF tsp] is_tree_rootp [OF tsg] by simp_all
          from D have d: "n \<noteq> p" "n \<noteq> g" "p \<noteq> g"
            "n \<notin> set (nodes sp)" "n \<notin> set (nodes sg)"
            "n \<notin> set (nodes l)" "n \<notin> set (nodes r)"
            "p \<notin> set (nodes l)" "p \<notin> set (nodes r)" "p \<notin> set (nodes sp)" "p \<notin> set (nodes sg)"
            "g \<notin> set (nodes l)" "g \<notin> set (nodes r)" "g \<notin> set (nodes sp)" "g \<notin> set (nodes sg)"
            "n \<notin> set (cbefore c'')" "n \<notin> set (cafter c'')"
            "p \<notin> set (cbefore c'')" "p \<notin> set (cafter c'')"
            "g \<notin> set (cbefore c'')" "g \<notin> set (cafter c'')"
            by (auto simp: pl nodes_plug)
          from rp c have rp': "red (heap s p)" by simp
          from crr c rp' have col: "no_red_red s sp" "black s (rootp sp)" "no_red_red s sg"
            "\<not> red (heap s g)" "ctx_rr s c'' True" by auto
          from cbal c rp' col have bh: "balanced s sp" "bheight s sp = bheight s l"
            "balanced s sg" "bheight s sg = bheight s l" "ctx_bal s c'' (bheight s l + 1)"
            using rn by simp_all
          from crb c col have rb: "ctx_root_black s c'' True" by simp
          have sib: "sibling s (Some p) (Some g) = rootp sg"
            using d by (simp add: sibling_def ptr rootp_neq)
          have ne: "left (heap s p) \<noteq> Some n" "left (heap s g) \<noteq> Some p"
            using d by (simp_all add: ptr rootp_neq)
          show ?thesis
          proof (cases "black s (rootp sg)")
            case True
            let ?s2 = "upd g (red_update (\<lambda>_. True)) (upd p (red_update (\<lambda>_. False)) s)"
            have step: "rebalanceRed (Some n) s = Some (rotateLeft g ?s2)"
              using rn ptr rp' sib True ne by (intro rebalanceRed_RR) simp_all
            have T2: "is_tree ?s2 None (root ?s2) (plug c'' (Nd sg g (Nd sp p (Nd l n r))))"
              using T by (simp add: pl)
            from rotateLeft_inv [OF T2 D [unfolded pl]] mri obtain s3 where
              s3: "rotateLeft g ?s2 = Inr s3"
              and T3: "is_tree s3 None (root s3) (plug c'' (Nd (Nd sg g sp) p (Nd l n r)))"
              and same: "\<And>a. red (heap s3 a) = red (heap ?s2 a)"
                "\<And>a. interval (heap s3 a) = interval (heap s a)"
                "\<And>a. Value (heap s3 a) = Value (heap s a)"
              and al: "alloc s3 = alloc s" "length_T s3 = length_T s"
              and m3: "mr_inv s3 (plug c'' (Nd (Nd sg g sp) p (Nd l n r)))"
              by (auto simp: pl)
            note cc = colour_cong [of s3 ?s2, OF same(1)]
            have "rb_post s s3 (plug c (Nd l n r))"
              unfolding rb_post_def
              apply (intro conjI exI [of _ "plug c'' (Nd (Nd sg g sp) p (Nd l n r))"])
              using T3 m3 same al
                      apply (simp_all add: pl nodes_plug is_tree_rootp [OF T3] cc
                  no_red_red_plug balanced_plug root_black_plug)
              using d col bh rb bl br nl nr bal rn rp' True
              by simp_all
            then show ?thesis using step s3 by simp
          next
            case False
            then obtain ul u ur where sg: "sg = Nd ul u ur" and ru: "red (heap s u)"
              using not_black_rootp by blast
            from D have du: "u \<noteq> n" "u \<noteq> p" "u \<noteq> g"
              "u \<notin> set (nodes l)" "u \<notin> set (nodes r)" "u \<notin> set (nodes sp)"
              "u \<notin> set (nodes ul)" "u \<notin> set (nodes ur)"
              "p \<notin> set (nodes ul)" "p \<notin> set (nodes ur)"
              "g \<notin> set (nodes ul)" "g \<notin> set (nodes ur)"
              "u \<notin> set (cbefore c'')" "u \<notin> set (cafter c'')"
              by (auto simp: pl sg nodes_plug)
            let ?s2 = "upd g (red_update (\<lambda>_. True)) (upd p (red_update (\<lambda>_. False))
              (upd u (red_update (\<lambda>_. False)) s))"
            have step: "rebalanceRed (Some n) s = rebalanceRed (Some g) ?s2"
              using rn ptr rp' sib ru by (intro rebalanceRed_red_auncle) (simp_all add: sg)
            have "\<exists>s'. rebalanceRed (Some g) ?s2 = Some (Inr s') \<and>
              rb_post ?s2 s' (plug c'' (Nd (Nd ul u ur) g (Nd sp p (Nd l n r))))"
              apply (rule IH)
              using T D mri d du col bh rb bl br nl nr bal rn rp' ru
              by (simp_all add: c pl sg)
            then obtain s' where "rebalanceRed (Some g) ?s2 = Some (Inr s')"
              and "rb_post ?s2 s' (plug c (Nd l n r))" by (auto simp: pl sg)
            then show ?thesis using step by (simp add: rb_post_def)
          qed
        qed
      qed
    qed
  qed
qed

section \<open>Empty intervals are rejected\<close>

text \<open>
  C5. Every operation that takes an interval panics with the programming error
  \<open>EmptyInterval\<close> when the interval is empty, in every state of the tree:
  \<open>ReplaceOrInsert\<close>, \<open>Get\<close>, \<open>GetNode\<close>, \<open>GetLess\<close>, \<open>GetLessEqual\<close>, \<open>GetGreater\<close>,
  \<open>GetGreaterEqual\<close>, \<open>Delete\<close>, \<open>NodesContainingInterval\<close>, \<open>NodesContainedInInterval\<close> and
  \<open>NodesOverlappingInterval\<close>.
\<close>

theorem empty_interval_rejected:
  "empty_iv i \<Longrightarrow>
     ReplaceOrInsert i v s = Some (Inl EmptyInterval) \<and>
     Get s i = Some (Inl EmptyInterval) \<and>
     GetNode s i = Some (Inl EmptyInterval) \<and>
     GetLess s i = Some (Inl EmptyInterval) \<and>
     GetLessEqual s i = Some (Inl EmptyInterval) \<and>
     GetGreater s i = Some (Inl EmptyInterval) \<and>
     GetGreaterEqual s i = Some (Inl EmptyInterval) \<and>
     Delete i s = Some (Inl EmptyInterval) \<and>
     NodesContainingInterval s i = Some (Inl EmptyInterval) \<and>
     NodesContainedInInterval s i = Some (Inl EmptyInterval) \<and>
     NodesOverlappingInterval s i = Some (Inl EmptyInterval)"
  by (simp add: ReplaceOrInsert_def Get_def GetNode_def GetLess_def GetLessEqual_def
      GetGreater_def GetGreaterEqual_def Delete_def NodesContainingInterval_def
      NodesContainedInInterval_def NodesOverlappingInterval_def)

lemma ex_iv_empty: "empty_iv (ex_iv 3 3)"
  by (simp add: empty_iv_def ex_iv_def lessOrEqual_def Less_def)

lemma ex_iv_nonempty: "\<not> empty_iv (ex_iv 0 1)"
  by (simp add: empty_iv_def ex_iv_def lessOrEqual_def Less_def)

theorem empty_interval_rejected_witness:
  "empty_iv (ex_iv 3 3) \<and>
   ReplaceOrInsert (ex_iv 3 3) (Some (1::nat)) (emptyT ex_heap 0) = Some (Inl EmptyInterval) \<and>
   Get (emptyT ex_heap 0) (ex_iv 3 3) = Some (Inl EmptyInterval) \<and>
   Delete (ex_iv 3 3) (emptyT ex_heap 0) = Some (Inl EmptyInterval) \<and>
   NodesOverlappingInterval (emptyT ex_heap 0) (ex_iv 3 3) = Some (Inl EmptyInterval)"
  using empty_interval_rejected [OF ex_iv_empty, of "Some 1" "emptyT ex_heap 0"] ex_iv_empty
  by simp

section \<open>Operations on the empty tree\<close>

lemma GetNode_loop_None: "GetNode_loop s iv None = Some None"
  by (subst GetNode_loop.simps) simp

lemma GetMin_loop_None: "GetMin_loop s c None = Some c"
  by (subst GetMin_loop.simps) simp

lemma GetMax_loop_None: "GetMax_loop s c None = Some c"
  by (subst GetMax_loop.simps) simp

lemma GetLess_loop_None: "GetLess_loop s iv c None = Some c"
  by (subst GetLess_loop.simps) simp

lemma GetLessEqual_loop_None: "GetLessEqual_loop s iv c None = Some c"
  by (subst GetLessEqual_loop.simps) simp

lemma GetGreater_loop_None: "GetGreater_loop s iv c None = Some c"
  by (subst GetGreater_loop.simps) simp

lemma GetGreaterEqual_loop_None: "GetGreaterEqual_loop s iv c None = Some c"
  by (subst GetGreaterEqual_loop.simps) simp

lemmas loop_None =
  GetNode_loop_None GetMin_loop_None GetMax_loop_None GetLess_loop_None
  GetLessEqual_loop_None GetGreater_loop_None GetGreaterEqual_loop_None

text \<open>
  C9, as stated, fails: on the empty tree \<open>Get\<close> (and every other operation that takes an
  interval) panics when the interval is empty, because the emptiness test comes first.
\<close>

theorem empty_tree_Get_counterexample:
  "Get (emptyT ex_heap 0) (ex_iv 3 3) = Some (Inl EmptyInterval) \<and>
   Get (emptyT ex_heap 0) (ex_iv 3 3) \<noteq> Some (Inr (None, False))"
  by (simp add: Get_def GetNode_def ex_iv_empty)

text \<open>
  C9, amended. On the empty tree every operation that is given a non-empty interval (or
  takes none) returns its absent result and does not panic: \<open>Get\<close> and \<open>Delete\<close> return
  \<open>(nil, false)\<close>, \<open>Delete\<close> leaving the tree as it was; \<open>GetNode\<close>, \<open>GetMin\<close>, \<open>GetMax\<close>,
  \<open>GetLess\<close>, \<open>GetLessEqual\<close>, \<open>GetGreater\<close> and \<open>GetGreaterEqual\<close> return nil; the four range
  queries return the empty sequence; \<open>Len\<close> returns 0.
\<close>

theorem empty_tree_absent:
  "\<not> empty_iv i \<Longrightarrow>
     Get (emptyT h a) i = Some (Inr (None, False)) \<and>
     Delete i (emptyT h a) = Some (Inr ((None, False), emptyT h a)) \<and>
     GetNode (emptyT h a) i = Some (Inr None) \<and>
     GetMin (emptyT h a) = Some None \<and>
     GetMax (emptyT h a) = Some None \<and>
     GetLess (emptyT h a) i = Some (Inr None) \<and>
     GetLessEqual (emptyT h a) i = Some (Inr None) \<and>
     GetGreater (emptyT h a) i = Some (Inr None) \<and>
     GetGreaterEqual (emptyT h a) i = Some (Inr None) \<and>
     NodesContainingPoint (emptyT h a) p = Some (Inr []) \<and>
     NodesContainingInterval (emptyT h a) i = Some (Inr []) \<and>
     NodesContainedInInterval (emptyT h a) i = Some (Inr []) \<and>
     NodesOverlappingInterval (emptyT h a) i = Some (Inr []) \<and>
     Len (emptyT h a) = 0"
  by (simp add: Get_def Delete_def GetNode_def GetMin_def GetMax_def GetLess_def
      GetLessEqual_def GetGreater_def GetGreaterEqual_def NodesContainingPoint_def
      NodesContainingInterval_def NodesContainedInInterval_def NodesOverlappingInterval_def
      Len_def emptyT_def loop_None)

theorem empty_tree_absent_witness:
  "\<not> empty_iv (ex_iv 0 1) \<and>
   Get (emptyT ex_heap 0) (ex_iv 0 1) = Some (Inr (None, False)) \<and>
   Delete (ex_iv 0 1) (emptyT ex_heap 0) = Some (Inr ((None, False), emptyT ex_heap 0)) \<and>
   GetLess (emptyT ex_heap 0) (ex_iv 0 1) = Some (Inr None) \<and>
   NodesContainingPoint (emptyT ex_heap 0) (Point 0 ()) = Some (Inr []) \<and>
   Len (emptyT ex_heap 0) = 0"
  using empty_tree_absent [OF ex_iv_nonempty, of ex_heap 0 "Point 0 ()"] ex_iv_nonempty
  by simp

section \<open>Range queries\<close>

text \<open>
  C2 fails for \<open>NodesOverlappingInterval\<close>. Inserting \<open>[5,6)\<close> and then \<open>[1,10)\<close> into the
  empty tree gives the root \<open>[5,6)\<close> (address 0) with the left child \<open>[1,10)\<close> (address 1).
  The stored interval \<open>[1,10)\<close> overlaps \<open>[7,8)\<close>, yet the query for \<open>[7,8)\<close> returns the
  empty sequence: at the root the visitor skips the left subtree because \<open>7 < 6\<close> is
  false, although intervals of the left subtree can end after the root's.
  \<open>NodesContainingPoint\<close> finds the node for the point 7.
\<close>

theorem NodesOverlappingInterval_misses_node:
  "(case run [OpReplaceOrInsert (ex_iv 5 6) (Some (0::nat)),
              OpReplaceOrInsert (ex_iv 1 10) (Some 1)] (emptyT ex_heap 0) of
      Some (Inr s) \<Rightarrow>
        root s = Some 0 \<and> left (heap s 0) = Some 1 \<and>
        interval (heap s 0) = ex_iv 5 6 \<and>
        interval (heap s 1) = ex_iv 1 10 \<and>
        Overlaps (interval (heap s 1)) (ex_iv 7 8) \<and>
        NodesOverlappingInterval s (ex_iv 7 8) = Some (Inr []) \<and>
        NodesContainingPoint s (Point 7 ()) = Some (Inr [1])
    | _ \<Rightarrow> False)"
  by code_simp

end
